theory Spec2Isabelle
  imports Complex_Main
begin

section \<open>JavaScript numbers and thrown values\<close>

text \<open>
  A JavaScript \<open>number\<close> used as a count or a bound is a finite value, one of the two
  infinities, or NaN. Finite values are modelled as rationals (every finite double is
  one); the comparisons follow JavaScript: every comparison with NaN is false.
\<close>

datatype jsnum = Fin rat | PosInf | NegInf | NaN

fun js_lt :: "jsnum \<Rightarrow> jsnum \<Rightarrow> bool" where
  "js_lt (Fin a) (Fin b) = (a < b)"
| "js_lt (Fin a) PosInf = True"
| "js_lt NegInf (Fin b) = True"
| "js_lt NegInf PosInf = True"
| "js_lt _ _ = False"

fun js_le :: "jsnum \<Rightarrow> jsnum \<Rightarrow> bool" where
  "js_le (Fin a) (Fin b) = (a \<le> b)"
| "js_le (Fin a) PosInf = True"
| "js_le NegInf (Fin b) = True"
| "js_le NegInf PosInf = True"
| "js_le PosInf PosInf = True"
| "js_le NegInf NegInf = True"
| "js_le _ _ = False"

fun isFinite :: "jsnum \<Rightarrow> bool" where
  "isFinite (Fin a) = True"
| "isFinite _ = False"

abbreviation num :: "nat \<Rightarrow> jsnum" where
  "num n \<equiv> Fin (of_nat n)"

text \<open>
  A thrown value is an \<open>Error\<close> object with its message, \<open>undefined\<close>, or some other
  value that is not an \<open>Error\<close> instance.
\<close>

datatype thrown = Error string | Undefined | OtherValue

text \<open>
  \<open>String.prototype.toLowerCase\<close> on one-byte characters: the ASCII capitals and the
  Latin-1 capitals (all of 0xC0 to 0xDE but the multiplication sign 0xD7) move up by 32.
\<close>

fun toLowerCase_char :: "char \<Rightarrow> char" where
  "toLowerCase_char c =
     (let n = (of_char c :: nat)
      in if (65 \<le> n \<and> n \<le> 90) \<or> (192 \<le> n \<and> n \<le> 222 \<and> n \<noteq> 215)
         then char_of (n + 32) else c)"

definition toLowerCase :: "string \<Rightarrow> string" where
  "toLowerCase s = map toLowerCase_char s"

fun startsWith :: "'a list \<Rightarrow> 'a list \<Rightarrow> bool" where
  "startsWith s [] = True"
| "startsWith [] (p # ps) = False"
| "startsWith (c # cs) (p # ps) = (c = p \<and> startsWith cs ps)"

fun js_includes :: "string \<Rightarrow> string \<Rightarrow> bool" where
  "js_includes [] p = (p = [])"
| "js_includes (c # cs) p = (startsWith (c # cs) p \<or> js_includes cs p)"

fun isRateLimitError :: "thrown \<Rightarrow> bool" where
  "isRateLimitError (Error message) =
     (let msg = toLowerCase message
      in js_includes msg ''rate limit'' \<or>
         js_includes msg ''429'' \<or>
         js_includes msg ''too many requests'' \<or>
         js_includes msg ''free credits temporarily'' \<or>
         js_includes msg ''resource exhausted'' \<or>
         js_includes msg ''quota'')"
| "isRateLimitError _ = False"

section \<open>Retry policy (generate-lessons.ts, isRateLimitError and withRetry)\<close>

text \<open>
  The operation \<open>fn\<close> is an oracle: \<open>fn i\<close> is what its invocation number \<open>i\<close>
  (counted from 0) settles to, \<open>Inl\<close> a thrown value or \<open>Inr\<close> a result.
  \<open>Math.random()\<close> is the oracle \<open>jitter\<close>. The run records its events in order:
  each invocation of the operation and each backoff sleep with its delay.
  With \<open>maxRetries = Infinity\<close> and an operation that is rate-limited for ever the
  loop does not return, so the loop is a partial function: \<open>None\<close> is no return.
\<close>

datatype retry_event = is_Invoke: Invoke nat | is_Sleep: Sleep rat

record 'a retry_run =
  outcome :: "thrown + 'a"
  events :: "retry_event list"

definition delayMs :: "rat \<Rightarrow> (nat \<Rightarrow> rat) \<Rightarrow> nat \<Rightarrow> rat" where
  "delayMs baseMs jitter attempt = baseMs * 2 ^ attempt + jitter attempt * 1000"

partial_function (option) withRetry_loop ::
  "(nat \<Rightarrow> thrown + 'a) \<Rightarrow> jsnum \<Rightarrow> rat \<Rightarrow> (nat \<Rightarrow> rat) \<Rightarrow>
   nat \<Rightarrow> thrown \<Rightarrow> retry_event list \<Rightarrow> 'a retry_run option" where
  "withRetry_loop fn maxRetries baseMs jitter attempt lastErr evs =
     (if js_le (num attempt) maxRetries then
        (case fn attempt of
           Inr v \<Rightarrow> Some \<lparr>outcome = Inr v, events = evs @ [Invoke attempt]\<rparr>
         | Inl err \<Rightarrow>
             if js_lt (num attempt) maxRetries \<and> isRateLimitError err then
               withRetry_loop fn maxRetries baseMs jitter (attempt + 1) err
                 (evs @ [Invoke attempt, Sleep (delayMs baseMs jitter attempt)])
             else Some \<lparr>outcome = Inl err, events = evs @ [Invoke attempt]\<rparr>)
      else Some \<lparr>outcome = Inl lastErr, events = evs\<rparr>)"

declare withRetry_loop.simps [code]

definition withRetry ::
  "(nat \<Rightarrow> thrown + 'a) \<Rightarrow> jsnum \<Rightarrow> rat \<Rightarrow> (nat \<Rightarrow> rat) \<Rightarrow> 'a retry_run option" where
  "withRetry fn maxRetries baseMs jitter =
     withRetry_loop fn maxRetries baseMs jitter 0 Undefined []"

definition invocations :: "retry_event list \<Rightarrow> nat" where
  "invocations evs = length (filter is_Invoke evs)"

definition sleeps :: "retry_event list \<Rightarrow> nat" where
  "sleeps evs = length (filter is_Sleep evs)"

text \<open>
  The events of \<open>d\<close> failed attempts starting at attempt \<open>a\<close>: each invocation is
  followed by its backoff sleep.
\<close>

fun backoff_log :: "rat \<Rightarrow> (nat \<Rightarrow> rat) \<Rightarrow> nat \<Rightarrow> nat \<Rightarrow> retry_event list" where
  "backoff_log baseMs jitter a 0 = []"
| "backoff_log baseMs jitter a (Suc d) =
     Invoke a # Sleep (delayMs baseMs jitter a) # backoff_log baseMs jitter (Suc a) d"

text \<open>Example operations and a jitter source for the concrete runs below.\<close>

definition fails_twice :: "nat \<Rightarrow> thrown + string" where
  "fails_twice i = (if i < 2 then Inl (Error ''HTTP 429 Too Many Requests'') else Inr ''ok'')"

definition always_boom :: "nat \<Rightarrow> thrown + string" where
  "always_boom i = Inl (Error ''boom'')"

definition no_jitter :: "nat \<Rightarrow> rat" where
  "no_jitter i = 0"

lemma js_lt_le: "js_lt a b \<Longrightarrow> js_le a b"
  by (cases a; cases b) auto

lemma js_le_num_mono: "i \<le> k \<Longrightarrow> js_lt (num k) R \<Longrightarrow> js_le (num i) R"
  by (cases R) auto

lemma js_lt_num_mono: "i < k \<Longrightarrow> js_lt (num k) R \<Longrightarrow> js_lt (num i) R"
  by (cases R) auto

lemma withRetry_loop_transient:
  assumes R: "js_lt (num k) R"
    and fails: "\<forall>i<k. \<exists>e. fn i = Inl e \<and> isRateLimitError e"
    and ok: "fn k = Inr v"
  shows "a + d = k \<Longrightarrow>
         withRetry_loop fn R baseMs jitter a lastErr evs =
           Some \<lparr>outcome = Inr v, events = evs @ backoff_log baseMs jitter a d @ [Invoke k]\<rparr>"
proof (induction d arbitrary: a lastErr evs)
  case 0
  then have "a = k" by simp
  with R ok show ?case
    by (subst withRetry_loop.simps) (simp add: js_lt_le)
next
  case (Suc d)
  then have lt: "a < k" by simp
  with fails obtain e where e: "fn a = Inl e" "isRateLimitError e" by blast
  from lt R have le: "js_le (num a) R" and l: "js_lt (num a) R"
    by (auto intro: js_le_num_mono js_lt_num_mono)
  from Suc.prems have "Suc a + d = k" by simp
  from Suc.IH [OF this] e le l show ?case
    by (subst withRetry_loop.simps) simp
qed

lemma invocations_backoff_log [simp]:
  "invocations (backoff_log baseMs jitter a d @ evs) = d + invocations evs"
  by (induction d arbitrary: a) (simp_all add: invocations_def)

lemma sleeps_backoff_log [simp]:
  "sleeps (backoff_log baseMs jitter a d @ evs) = d + sleeps evs"
  by (induction d arbitrary: a) (simp_all add: sleeps_def)

text \<open>
  Claim C4. If the operation fails with a rate-limit-classified error on its first
  \<open>k\<close> invocations, \<open>k < maxRetries\<close>, and succeeds on the next one, then
  \<open>withRetry\<close> returns that success value after exactly \<open>k + 1\<close> invocations; it
  sleeps exactly \<open>k\<close> times, each sleep directly after a failed invocation, and the last
  event of the run is the successful invocation (no sleep follows it).
\<close>

theorem withRetry_transient_then_success:
  assumes "js_lt (num k) R"
    and "\<forall>i<k. \<exists>e. fn i = Inl e \<and> isRateLimitError e"
    and "fn k = Inr v"
  shows "\<exists>run. withRetry fn R baseMs jitter = Some run \<and>
           outcome run = Inr v \<and>
           events run = backoff_log baseMs jitter 0 k @ [Invoke k] \<and>
           invocations (events run) = k + 1 \<and>
           sleeps (events run) = k \<and>
           last (events run) = Invoke k"
proof -
  have "withRetry fn R baseMs jitter =
          Some \<lparr>outcome = Inr v, events = [] @ backoff_log baseMs jitter 0 k @ [Invoke k]\<rparr>"
    unfolding withRetry_def
    by (rule withRetry_loop_transient [OF assms]) simp
  moreover have "invocations [Invoke k] = 1" "sleeps [Invoke k] = 0"
    by (simp_all add: invocations_def sleeps_def)
  ultimately show ?thesis by simp
qed

theorem withRetry_transient_then_success_witness:
  "\<exists>run. withRetry fails_twice (Fin 6) 5000 no_jitter = Some run \<and>
     outcome run = Inr ''ok'' \<and>
     events run = [Invoke 0, Sleep 5000, Invoke 1, Sleep 10000, Invoke 2] \<and>
     invocations (events run) = 3 \<and> sleeps (events run) = 2"
proof -
  have R: "js_lt (num 2) (Fin 6)" by simp
  have rl: "isRateLimitError (Error ''HTTP 429 Too Many Requests'')" by code_simp
  have fails: "\<forall>i<2. \<exists>e. fails_twice i = Inl e \<and> isRateLimitError e"
    using rl by (simp add: fails_twice_def)
  have ok: "fails_twice 2 = Inr ''ok''" by (simp add: fails_twice_def)
  have bl: "backoff_log 5000 no_jitter 0 2 = [Invoke 0, Sleep 5000, Invoke 1, Sleep 10000]"
    by (simp add: numeral_2_eq_2 delayMs_def no_jitter_def)
  from withRetry_transient_then_success [OF R fails ok, of 5000 no_jitter] bl
  show ?thesis by (auto simp: invocations_def sleeps_def)
qed

text \<open>
  Claim C5 (amended). For every retry bound \<open>maxRetries \<ge> 0\<close> (infinity included): if the
  first invocation of the operation fails with an error that is not classified as
  transient, \<open>withRetry\<close> invokes the operation exactly once and rethrows that error,
  with no backoff sleep and no further attempt.
\<close>

theorem withRetry_nontransient_once:
  assumes "js_le (num 0) R"
    and "fn 0 = Inl e"
    and "\<not> isRateLimitError e"
  shows "withRetry fn R baseMs jitter = Some \<lparr>outcome = Inl e, events = [Invoke 0]\<rparr>"
  using assms unfolding withRetry_def
  by (subst withRetry_loop.simps) simp

theorem withRetry_nontransient_once_witness:
  "withRetry always_boom (Fin 6) 5000 no_jitter =
     Some \<lparr>outcome = Inl (Error ''boom''), events = [Invoke 0]\<rparr>"
proof -
  have R: "js_le (num 0) (Fin 6)" by simp
  have f: "always_boom 0 = Inl (Error ''boom'')" by (simp add: always_boom_def)
  have nt: "\<not> isRateLimitError (Error ''boom'')" by code_simp
  show ?thesis by (rule withRetry_nontransient_once [where fn = always_boom, OF R f nt])
qed

text \<open>
  The claim as stated, for every operation whatever the retry bound, fails when the
  bound is negative or NaN (\<open>MAX_RETRIES\<close> is \<open>parseInt\<close> of an environment variable,
  so \<open>-1\<close> and \<open>NaN\<close> are reachable): the loop body never runs, the operation is
  invoked zero times and \<open>undefined\<close> is thrown instead of the operation's error.
\<close>

theorem withRetry_negative_retries_counterexample:
  "always_boom 0 = Inl (Error ''boom'') \<and>
   \<not> isRateLimitError (Error ''boom'') \<and>
   withRetry always_boom (Fin (- 1)) 5000 no_jitter =
     Some \<lparr>outcome = Inl Undefined, events = []\<rparr> \<and>
   withRetry always_boom NaN 5000 no_jitter =
     Some \<lparr>outcome = Inl Undefined, events = []\<rparr>"
proof -
  have nt: "\<not> isRateLimitError (Error ''boom'')" by code_simp
  have a: "withRetry always_boom (Fin (- 1)) 5000 no_jitter =
     Some \<lparr>outcome = Inl Undefined, events = []\<rparr>"
    unfolding withRetry_def by (subst withRetry_loop.simps) simp
  have b: "withRetry always_boom NaN 5000 no_jitter =
     Some \<lparr>outcome = Inl Undefined, events = []\<rparr>"
    unfolding withRetry_def by (subst withRetry_loop.simps) simp
  show ?thesis using nt a b by (simp add: always_boom_def)
qed


section \<open>Concurrency-bounded runner (mapWithConcurrency)\<close>

text \<open>
  \<open>Math.floor\<close> and \<open>Math.min\<close> on numbers, and the \<open>ToLength\<close> conversion that
  \<open>Array.from({ length: workerCount }, ...)\<close> applies to its length: NaN and negative
  values give 0, a fraction is truncated, the result is at most \<open>2^53 - 1\<close>.
\<close>

fun js_floor :: "jsnum \<Rightarrow> jsnum" where
  "js_floor (Fin a) = Fin (of_int \<lfloor>a\<rfloor>)"
| "js_floor x = x"

fun js_min :: "jsnum \<Rightarrow> jsnum \<Rightarrow> jsnum" where
  "js_min NaN b = NaN"
| "js_min a NaN = NaN"
| "js_min a b = (if js_lt b a then b else a)"

fun toLength :: "jsnum \<Rightarrow> nat" where
  "toLength (Fin a) =
     (if a \<le> 0 then 0 else if 2 ^ 53 - 1 \<le> a then 2 ^ 53 - 1 else nat \<lfloor>a\<rfloor>)"
| "toLength PosInf = 2 ^ 53 - 1"
| "toLength NegInf = 0"
| "toLength NaN = 0"

text \<open>
  The cooperative scheduling of the workers. A worker is at the head of its
  \<open>while\<close> loop, suspended in the pacing \<open>sleep\<close> before the call for a claimed index
  (generate-lessons.ts only), suspended in \<open>await mapper(items[idx], idx)\<close>, or has
  returned. The pool is the state the workers share: the cursor, the \<open>results\<close> array
  (a slot never written is \<open>None\<close>), the workers, the indices for which the handler
  has been invoked, in order, and the first rejection (which rejects \<open>Promise.all\<close>).
\<close>

datatype worker = AtLoopHead | Pacing nat | Awaiting nat | Returned

record 'r pool =
  cursor :: nat
  results :: "'r option list"
  workers :: "worker list"
  calls :: "nat list"
  rejected :: "thrown option"

definition new_pool :: "nat \<Rightarrow> nat \<Rightarrow> 'r pool" where
  "new_pool n workerCount =
     \<lparr>cursor = 0, results = replicate n None, workers = replicate workerCount AtLoopHead,
      calls = [], rejected = None\<rparr>"

text \<open>
  One resumption of worker \<open>w\<close>. At the loop head it tests \<open>cursor < items.length\<close>,
  claims \<open>cursor++\<close> and either sleeps (\<open>paced\<close> and \<open>idx > 0\<close>) or invokes the
  handler; after the sleep it invokes the handler; when the handler's promise settles it
  writes \<open>results[idx]\<close> (or rejects) and is back at the loop head. The handler is
  \<open>mapper\<close>: \<open>Inr\<close> the value it resolves to, \<open>Inl\<close> what it rejects with. A claimed
  index is always below \<open>items.length\<close> (see \<open>pool_inv\<close> below), so \<open>items ! idx\<close>
  is read in range. The source runs the write and the next claim in one turn; here they
  are two steps, which only admits more interleavings.
\<close>

definition worker_step ::
  "bool \<Rightarrow> 'a list \<Rightarrow> ('a \<Rightarrow> nat \<Rightarrow> thrown + 'r) \<Rightarrow> nat \<Rightarrow> 'r pool \<Rightarrow> 'r pool" where
  "worker_step paced items mapper w s =
     (case workers s ! w of
        AtLoopHead \<Rightarrow>
          if cursor s < length items then
            let idx = cursor s in
            if paced \<and> idx > 0
            then s\<lparr>cursor := idx + 1, workers := (workers s)[w := Pacing idx]\<rparr>
            else s\<lparr>cursor := idx + 1, workers := (workers s)[w := Awaiting idx],
                   calls := calls s @ [idx]\<rparr>
          else s\<lparr>workers := (workers s)[w := Returned]\<rparr>
      | Pacing idx \<Rightarrow>
          s\<lparr>workers := (workers s)[w := Awaiting idx], calls := calls s @ [idx]\<rparr>
      | Awaiting idx \<Rightarrow>
          (case mapper (items ! idx) idx of
             Inr r \<Rightarrow> s\<lparr>results := (results s)[idx := Some r],
                         workers := (workers s)[w := AtLoopHead]\<rparr>
           | Inl e \<Rightarrow> s\<lparr>workers := (workers s)[w := Returned], rejected := Some e\<rparr>)
      | Returned \<Rightarrow> s)"

text \<open>
  The event loop resumes the unfinished workers in some order. The order is the
  schedule \<open>sched\<close>: each entry picks one of the currently unfinished workers (an
  exhausted schedule picks the first). The run ends when every worker has returned, or
  at the first rejection. It terminates under every schedule: each step decreases
  \<open>pool_measure\<close>.
\<close>

definition unfinished :: "'r pool \<Rightarrow> nat list" where
  "unfinished s = filter (\<lambda>w. workers s ! w \<noteq> Returned) [0..<length (workers s)]"

fun next_choice :: "nat list \<Rightarrow> nat" where
  "next_choice [] = 0"
| "next_choice (c # cs) = c"

fun weight :: "worker \<Rightarrow> nat" where
  "weight Returned = 0"
| "weight AtLoopHead = 1"
| "weight (Awaiting idx) = 2"
| "weight (Pacing idx) = 3"

definition pool_measure :: "'a list \<Rightarrow> 'r pool \<Rightarrow> nat" where
  "pool_measure items s = 4 * (length items - cursor s) + sum_list (map weight (workers s))"

lemma sum_list_weight_update:
  "w < length ws \<Longrightarrow>
   sum_list (map weight (ws[w := x])) + weight (ws ! w) = sum_list (map weight ws) + weight x"
proof (induction ws arbitrary: w)
  case Nil
  then show ?case by simp
next
  case (Cons a ws)
  then show ?case by (cases w) auto
qed

lemma worker_step_decreases:
  assumes "w < length (workers s)" "workers s ! w \<noteq> Returned"
  shows "pool_measure items (worker_step paced items mapper w s) < pool_measure items s"
proof -
  have upd: "sum_list (map weight ((workers s)[w := x])) + weight (workers s ! w) =
             sum_list (map weight (workers s)) + weight x" for x
    using assms(1) by (rule sum_list_weight_update)
  show ?thesis
  proof (cases "workers s ! w")
    case AtLoopHead
    show ?thesis
    proof (cases "cursor s < length items")
      case True
      then have "4 * (length items - (cursor s + 1)) + 4 = 4 * (length items - cursor s)"
        by arith
      moreover have "worker_step paced items mapper w s =
          (if paced \<and> cursor s > 0
           then s\<lparr>cursor := cursor s + 1, workers := (workers s)[w := Pacing (cursor s)]\<rparr>
           else s\<lparr>cursor := cursor s + 1, workers := (workers s)[w := Awaiting (cursor s)],
                  calls := calls s @ [cursor s]\<rparr>)"
        using AtLoopHead True by (simp add: worker_step_def Let_def)
      ultimately show ?thesis
        using AtLoopHead upd [of "Pacing (cursor s)"] upd [of "Awaiting (cursor s)"]
        unfolding pool_measure_def by (cases "paced \<and> cursor s > 0") simp_all
    next
      case False
      with AtLoopHead upd [of Returned] show ?thesis
        by (simp add: worker_step_def pool_measure_def)
    qed
  next
    case (Pacing idx)
    with upd [of "Awaiting idx"] show ?thesis
      by (simp add: worker_step_def pool_measure_def)
  next
    case (Awaiting idx)
    with upd [of AtLoopHead] upd [of Returned] show ?thesis
      by (simp add: worker_step_def pool_measure_def split: sum.splits)
  next
    case Returned
    with assms show ?thesis by simp
  qed
qed

lemma unfinished_nth:
  assumes "unfinished s \<noteq> []"
  shows "unfinished s ! (c mod length (unfinished s)) < length (workers s) \<and>
         workers s ! (unfinished s ! (c mod length (unfinished s))) \<noteq> Returned"
proof -
  from assms have "c mod length (unfinished s) < length (unfinished s)" by simp
  then have "unfinished s ! (c mod length (unfinished s)) \<in> set (unfinished s)"
    by (rule nth_mem)
  then show ?thesis by (simp add: unfinished_def)
qed

function run_workers ::
  "bool \<Rightarrow> 'a list \<Rightarrow> ('a \<Rightarrow> nat \<Rightarrow> thrown + 'r) \<Rightarrow> nat list \<Rightarrow> 'r pool \<Rightarrow> 'r pool" where
  "run_workers paced items mapper sched s =
     (if rejected s \<noteq> None \<or> unfinished s = [] then s
      else let w = unfinished s ! (next_choice sched mod length (unfinished s))
           in run_workers paced items mapper (tl sched) (worker_step paced items mapper w s))"
  by pat_completeness auto
termination
proof (relation "measure (\<lambda>(paced, items, mapper, sched, s). pool_measure items s)")
  show "wf (measure (\<lambda>(paced, items, mapper, sched, s). pool_measure items s))" by simp
next
  fix paced :: bool and items :: "'a list" and mapper :: "'a \<Rightarrow> nat \<Rightarrow> thrown + 'r"
    and sched :: "nat list" and s :: "'r pool" and w
  assume "\<not> (rejected s \<noteq> None \<or> unfinished s = [])"
    and w: "w = unfinished s ! (next_choice sched mod length (unfinished s))"
  then have "unfinished s \<noteq> []" by simp
  from unfinished_nth [OF this, of "next_choice sched"] w
  have "pool_measure items (worker_step paced items mapper w s) < pool_measure items s"
    by (intro worker_step_decreases) simp_all
  then show "((paced, items, mapper, tl sched, worker_step paced items mapper w s),
              (paced, items, mapper, sched, s))
             \<in> measure (\<lambda>(paced, items, mapper, sched, s). pool_measure items s)"
    by simp
qed

declare run_workers.simps [simp del]

text \<open>
  What a call of the runner shows to its caller: the array it resolves to or the error
  it rejects with, the indices the handler was invoked for, and the number of workers
  spawned.
\<close>

record 'r run_report =
  settled :: "thrown + 'r option list"
  handler_calls :: "nat list"
  spawned :: nat

definition report :: "'r pool \<Rightarrow> 'r run_report" where
  "report s =
     \<lparr>settled = (case rejected s of Some e \<Rightarrow> Inl e | None \<Rightarrow> Inr (results s)),
      handler_calls = calls s,
      spawned = length (workers s)\<rparr>"

text \<open>utils/concurrency.ts: the exported runner, with its validation.\<close>

definition mapWithConcurrency ::
  "'a list \<Rightarrow> jsnum \<Rightarrow> ('a \<Rightarrow> nat \<Rightarrow> thrown + 'r) \<Rightarrow> nat list \<Rightarrow> 'r run_report" where
  "mapWithConcurrency items concurrency mapper sched =
     (if \<not> isFinite concurrency \<or> js_le concurrency (Fin 0) then
        \<lparr>settled = Inl (Error ''Concurrency must be a positive number.''),
         handler_calls = [], spawned = 0\<rparr>
      else if length items = 0 then
        \<lparr>settled = Inr [], handler_calls = [], spawned = 0\<rparr>
      else
        let workerCount = js_min (js_floor concurrency) (num (length items))
        in report (run_workers False items mapper sched
                     (new_pool (length items) (toLength workerCount))))"

text \<open>
  generate-lessons.ts: the script's own copy (the same code stands in
  extract-subsections.ts): no validation, no \<open>Math.floor\<close>, and the pacing sleep.
\<close>

definition mapWithConcurrency_lessons ::
  "'a list \<Rightarrow> jsnum \<Rightarrow> ('a \<Rightarrow> nat \<Rightarrow> thrown + 'r) \<Rightarrow> nat list \<Rightarrow> 'r run_report" where
  "mapWithConcurrency_lessons items concurrency mapper sched =
     (let workerCount = js_min concurrency (num (length items))
      in report (run_workers True items mapper sched
                   (new_pool (length items) (toLength workerCount))))"

text \<open>
  The invariant of a run in which every handler call resolves to \<open>h i\<close>: every slot
  is filled with its own index's result, or is not claimed yet, or is claimed by a
  suspended worker; a worker returns only once the cursor has reached the end.
\<close>

definition in_flight :: "worker list \<Rightarrow> nat \<Rightarrow> bool" where
  "in_flight ws i \<longleftrightarrow> (\<exists>w<length ws. ws ! w = Pacing i \<or> ws ! w = Awaiting i)"

definition pool_inv :: "nat \<Rightarrow> (nat \<Rightarrow> 'r) \<Rightarrow> 'r pool \<Rightarrow> bool" where
  "pool_inv n h s \<longleftrightarrow>
     rejected s = None \<and> length (results s) = n \<and> cursor s \<le> n \<and>
     (\<forall>i<n. results s ! i = Some (h i) \<or> cursor s \<le> i \<or> in_flight (workers s) i) \<and>
     (\<forall>i. in_flight (workers s) i \<longrightarrow> i < n) \<and>
     (Returned \<in> set (workers s) \<longrightarrow> cursor s = n)"

lemma in_flight_other:
  assumes "in_flight ws i" "w < length ws" "ws ! w \<noteq> Pacing i" "ws ! w \<noteq> Awaiting i"
  shows "in_flight (ws[w := x]) i"
proof -
  from assms(1) obtain v where v: "v < length ws" "ws ! v = Pacing i \<or> ws ! v = Awaiting i"
    unfolding in_flight_def by blast
  with assms(3,4) have "v \<noteq> w" by auto
  then have "ws[w := x] ! v = ws ! v" by simp
  with v show ?thesis unfolding in_flight_def by auto
qed

lemma in_flight_idle:
  assumes "in_flight (ws[w := x]) i" "w < length ws" "x \<noteq> Pacing i" "x \<noteq> Awaiting i"
  shows "in_flight ws i"
proof -
  from assms(1) obtain v where v: "v < length ws"
    "ws[w := x] ! v = Pacing i \<or> ws[w := x] ! v = Awaiting i"
    unfolding in_flight_def by auto
  with assms(3,4) have "v \<noteq> w" by (auto simp: nth_list_update)
  then have "ws[w := x] ! v = ws ! v" by simp
  with v show ?thesis unfolding in_flight_def by auto
qed

lemma Returned_update:
  assumes "Returned \<in> set (ws[w := x])" "x \<noteq> Returned"
  shows "Returned \<in> set ws"
  using assms set_update_subset_insert [of ws w x] by auto

lemma pool_invI:
  assumes "rejected s = None" "length (results s) = n" "cursor s \<le> n"
    and "\<And>i. i < n \<Longrightarrow> results s ! i = Some (h i) \<or> cursor s \<le> i \<or> in_flight (workers s) i"
    and "\<And>i. in_flight (workers s) i \<Longrightarrow> i < n"
    and "Returned \<in> set (workers s) \<Longrightarrow> cursor s = n"
  shows "pool_inv n h s"
  using assms unfolding pool_inv_def by blast

lemma pool_invD:
  assumes "pool_inv n h s"
  shows "rejected s = None" "length (results s) = n" "cursor s \<le> n"
    and "\<And>i. i < n \<Longrightarrow> results s ! i = Some (h i) \<or> cursor s \<le> i \<or> in_flight (workers s) i"
    and "\<And>i. in_flight (workers s) i \<Longrightarrow> i < n"
    and "Returned \<in> set (workers s) \<Longrightarrow> cursor s = n"
  using assms unfolding pool_inv_def by blast+

lemma pool_inv_step:
  assumes inv: "pool_inv (length items) h s"
    and mapper: "\<forall>i<length items. mapper (items ! i) i = Inr (h i)"
    and w: "w < length (workers s)"
  shows "pool_inv (length items) h (worker_step paced items mapper w s)"
proof (cases "workers s ! w")
  case AtLoopHead
  show ?thesis
  proof (cases "cursor s < length items")
    case True
    define x where "x = (if paced \<and> cursor s > 0 then Pacing (cursor s) else Awaiting (cursor s))"
    define s' where "s' = worker_step paced items mapper w s"
    have step: "s' =
        (if paced \<and> cursor s > 0
         then s\<lparr>cursor := cursor s + 1, workers := (workers s)[w := x]\<rparr>
         else s\<lparr>cursor := cursor s + 1, workers := (workers s)[w := x],
                calls := calls s @ [cursor s]\<rparr>)"
      using AtLoopHead True by (simp add: s'_def worker_step_def Let_def x_def)
    have f: "rejected s' = rejected s" "results s' = results s" "cursor s' = cursor s + 1"
      "workers s' = (workers s)[w := x]"
      by (simp_all add: step)
    have x: "x = Pacing (cursor s) \<or> x = Awaiting (cursor s)" "x \<noteq> Returned"
      by (simp_all add: x_def)
    have noR: "Returned \<notin> set (workers s)"
      using pool_invD(6) [OF inv] True by auto
    have a: "in_flight ((workers s)[w := x]) i" if "in_flight (workers s) i" for i
      using that w AtLoopHead by (intro in_flight_other) simp_all
    have b: "in_flight ((workers s)[w := x]) (cursor s)"
      unfolding in_flight_def
    proof (intro exI [of _ w] conjI)
      show "w < length ((workers s)[w := x])" using w by simp
      show "(workers s)[w := x] ! w = Pacing (cursor s) \<or> (workers s)[w := x] ! w = Awaiting (cursor s)"
        using w x(1) by simp
    qed
    have "pool_inv (length items) h s'"
    proof (rule pool_invI)
      show "rejected s' = None" using pool_invD(1) [OF inv] f by simp
      show "length (results s') = length items" using pool_invD(2) [OF inv] f by simp
      show "cursor s' \<le> length items" using True f by simp
      show "results s' ! i = Some (h i) \<or> cursor s' \<le> i \<or> in_flight (workers s') i"
        if "i < length items" for i
      proof (cases "i = cursor s")
        case True
        with b f show ?thesis by simp
      next
        case False
        from pool_invD(4) [OF inv that] a [of i] False f show ?thesis by auto
      qed
      show "i < length items" if "in_flight (workers s') i" for i
      proof (cases "i = cursor s")
        case True
        with \<open>cursor s < length items\<close> show ?thesis by simp
      next
        case False
        have "in_flight (workers s) i"
        proof (rule in_flight_idle [of "workers s" w x i])
          show "in_flight ((workers s)[w := x]) i" using that f by simp
          show "w < length (workers s)" by (rule w)
          show "x \<noteq> Pacing i" "x \<noteq> Awaiting i" using x(1) False by auto
        qed
        then show ?thesis by (rule pool_invD(5) [OF inv])
      qed
      show "cursor s' = length items" if "Returned \<in> set (workers s')"
      proof -
        from that f have "Returned \<in> set ((workers s)[w := x])" by simp
        from Returned_update [OF this x(2)] noR show ?thesis by simp
      qed
    qed
    then show ?thesis by (simp add: s'_def)
  next
    case False
    with pool_invD(3) [OF inv] have cur: "cursor s = length items" by simp
    define s' where "s' = worker_step paced items mapper w s"
    have step: "s' = s\<lparr>workers := (workers s)[w := Returned]\<rparr>"
      using AtLoopHead False by (simp add: s'_def worker_step_def)
    have f: "rejected s' = rejected s" "results s' = results s" "cursor s' = cursor s"
      "workers s' = (workers s)[w := Returned]"
      by (simp_all add: step)
    have "pool_inv (length items) h s'"
    proof (rule pool_invI)
      show "rejected s' = None" using pool_invD(1) [OF inv] f by simp
      show "length (results s') = length items" using pool_invD(2) [OF inv] f by simp
      show "cursor s' \<le> length items" using cur f by simp
      show "results s' ! i = Some (h i) \<or> cursor s' \<le> i \<or> in_flight (workers s') i"
        if "i < length items" for i
      proof -
        have "in_flight ((workers s)[w := Returned]) i" if "in_flight (workers s) i"
          using that w AtLoopHead by (intro in_flight_other) simp_all
        with pool_invD(4) [OF inv \<open>i < length items\<close>] cur \<open>i < length items\<close> f
        show ?thesis by auto
      qed
      show "i < length items" if "in_flight (workers s') i" for i
      proof -
        have "in_flight (workers s) i"
          by (rule in_flight_idle [of "workers s" w Returned i]) (use that f w in simp_all)
        then show ?thesis by (rule pool_invD(5) [OF inv])
      qed
      show "cursor s' = length items" if "Returned \<in> set (workers s')"
        using cur f by simp
    qed
    then show ?thesis by (simp add: s'_def)
  qed
next
  case (Pacing idx)
  define s' where "s' = worker_step paced items mapper w s"
  have step: "s' = s\<lparr>workers := (workers s)[w := Awaiting idx], calls := calls s @ [idx]\<rparr>"
    using Pacing by (simp add: s'_def worker_step_def)
  have f: "rejected s' = rejected s" "results s' = results s" "cursor s' = cursor s"
    "workers s' = (workers s)[w := Awaiting idx]"
    by (simp_all add: step)
  have fl: "in_flight (workers s) idx"
    unfolding in_flight_def using w Pacing by blast
  have fl': "in_flight ((workers s)[w := Awaiting idx]) idx"
    unfolding in_flight_def
  proof (intro exI [of _ w] conjI)
    show "w < length ((workers s)[w := Awaiting idx])" using w by simp
    show "(workers s)[w := Awaiting idx] ! w = Pacing idx \<or>
          (workers s)[w := Awaiting idx] ! w = Awaiting idx"
      using w by simp
  qed
  have "pool_inv (length items) h s'"
  proof (rule pool_invI)
    show "rejected s' = None" using pool_invD(1) [OF inv] f by simp
    show "length (results s') = length items" using pool_invD(2) [OF inv] f by simp
    show "cursor s' \<le> length items" using pool_invD(3) [OF inv] f by simp
    show "results s' ! i = Some (h i) \<or> cursor s' \<le> i \<or> in_flight (workers s') i"
      if "i < length items" for i
    proof (cases "i = idx")
      case True
      with fl' f show ?thesis by simp
    next
      case False
      have "in_flight ((workers s)[w := Awaiting idx]) i" if "in_flight (workers s) i"
        using that w Pacing False by (intro in_flight_other) simp_all
      with pool_invD(4) [OF inv \<open>i < length items\<close>] f show ?thesis by auto
    qed
    show "i < length items" if "in_flight (workers s') i" for i
    proof (cases "i = idx")
      case True
      with fl show ?thesis using pool_invD(5) [OF inv] by simp
    next
      case False
      have "in_flight (workers s) i"
        by (rule in_flight_idle [of "workers s" w "Awaiting idx" i]) (use that f w False in simp_all)
      then show ?thesis by (rule pool_invD(5) [OF inv])
    qed
    show "cursor s' = length items" if "Returned \<in> set (workers s')"
    proof -
      from that f have "Returned \<in> set ((workers s)[w := Awaiting idx])" by simp
      from Returned_update [OF this] have "Returned \<in> set (workers s)" by simp
      from pool_invD(6) [OF inv this] f show ?thesis by simp
    qed
  qed
  then show ?thesis by (simp add: s'_def)
next
  case (Awaiting idx)
  have fl: "in_flight (workers s) idx"
    unfolding in_flight_def using w Awaiting by blast
  with pool_invD(5) [OF inv] have idx: "idx < length items" by simp
  with mapper have m: "mapper (items ! idx) idx = Inr (h idx)" by simp
  define s' where "s' = worker_step paced items mapper w s"
  have step: "s' =
      s\<lparr>results := (results s)[idx := Some (h idx)], workers := (workers s)[w := AtLoopHead]\<rparr>"
    using Awaiting m by (simp add: s'_def worker_step_def)
  have f: "rejected s' = rejected s" "results s' = (results s)[idx := Some (h idx)]"
    "cursor s' = cursor s" "workers s' = (workers s)[w := AtLoopHead]"
    by (simp_all add: step)
  have "pool_inv (length items) h s'"
  proof (rule pool_invI)
    show "rejected s' = None" using pool_invD(1) [OF inv] f by simp
    show "length (results s') = length items" using pool_invD(2) [OF inv] f by simp
    show "cursor s' \<le> length items" using pool_invD(3) [OF inv] f by simp
    show "results s' ! i = Some (h i) \<or> cursor s' \<le> i \<or> in_flight (workers s') i"
      if "i < length items" for i
    proof (cases "i = idx")
      case True
      with idx pool_invD(2) [OF inv] f show ?thesis by simp
    next
      case False
      have "in_flight ((workers s)[w := AtLoopHead]) i" if "in_flight (workers s) i"
        using that w Awaiting False by (intro in_flight_other) simp_all
      with pool_invD(4) [OF inv \<open>i < length items\<close>] f False show ?thesis by auto
    qed
    show "i < length items" if "in_flight (workers s') i" for i
    proof -
      have "in_flight (workers s) i"
        by (rule in_flight_idle [of "workers s" w AtLoopHead i]) (use that f w in simp_all)
      then show ?thesis by (rule pool_invD(5) [OF inv])
    qed
    show "cursor s' = length items" if "Returned \<in> set (workers s')"
    proof -
      from that f have "Returned \<in> set ((workers s)[w := AtLoopHead])" by simp
      from Returned_update [OF this] have "Returned \<in> set (workers s)" by simp
      from pool_invD(6) [OF inv this] f show ?thesis by simp
    qed
  qed
  then show ?thesis by (simp add: s'_def)
next
  case Returned
  then show ?thesis using inv by (simp add: worker_step_def)
qed

lemma run_workers_inv:
  "(\<forall>i<length items. mapper (items ! i) i = Inr (h i)) \<Longrightarrow>
   pool_inv (length items) h s \<Longrightarrow>
   pool_inv (length items) h (run_workers paced items mapper sched s) \<and>
   unfinished (run_workers paced items mapper sched s) = []"
proof (induction paced items mapper sched s rule: run_workers.induct)
  case (1 paced items mapper sched s)
  show ?case
  proof (cases "rejected s \<noteq> None \<or> unfinished s = []")
    case True
    then have "run_workers paced items mapper sched s = s"
      by (subst run_workers.simps) simp
    with True "1.prems"(2) pool_invD(1) [OF "1.prems"(2)] show ?thesis by simp
  next
    case False
    define w where "w = unfinished s ! (next_choice sched mod length (unfinished s))"
    from False have "unfinished s \<noteq> []" by simp
    from unfinished_nth [OF this, of "next_choice sched"]
    have w: "w < length (workers s)" by (simp add: w_def)
    have step: "pool_inv (length items) h (worker_step paced items mapper w s)"
      using "1.prems"(2,1) w by (rule pool_inv_step)
    have unf: "run_workers paced items mapper sched s =
               run_workers paced items mapper (tl sched) (worker_step paced items mapper w s)"
      using False by (subst run_workers.simps) (simp add: w_def Let_def)
    from "1.IH" [OF False w_def "1.prems"(1) step] show ?thesis
      unfolding unf .
  qed
qed

lemma worker_step_length [simp]:
  "length (workers (worker_step paced items mapper w s)) = length (workers s)"
  by (simp add: worker_step_def Let_def split: worker.splits sum.splits)

lemma run_workers_length:
  "length (workers (run_workers paced items mapper sched s)) = length (workers s)"
proof (induction paced items mapper sched s rule: run_workers.induct)
  case (1 paced items mapper sched s)
  show ?case
  proof (cases "rejected s \<noteq> None \<or> unfinished s = []")
    case True
    then show ?thesis by (subst run_workers.simps) simp
  next
    case False
    with "1.IH" [OF False refl] show ?thesis
      by (subst run_workers.simps) (simp add: Let_def)
  qed
qed

lemma new_pool_inv: "pool_inv n h (new_pool n k)"
proof (rule pool_invI)
  show "in_flight (workers (new_pool n k)) i \<Longrightarrow> i < n" for i
    by (auto simp: new_pool_def in_flight_def)
qed (simp_all add: new_pool_def)

lemma unfinished_empty:
  assumes "unfinished s = []"
  shows "\<forall>w<length (workers s). workers s ! w = Returned"
proof (intro allI impI)
  fix w assume w: "w < length (workers s)"
  show "workers s ! w = Returned"
  proof (rule ccontr)
    assume "workers s ! w \<noteq> Returned"
    with w have "w \<in> set (unfinished s)" by (simp add: unfinished_def)
    with assms show False by simp
  qed
qed

lemma pool_inv_finished:
  assumes inv: "pool_inv n h s" and fin: "unfinished s = []"
    and some: "workers s \<noteq> [] \<or> n = 0"
  shows "results s = map (\<lambda>i. Some (h i)) [0..<n]"
proof (rule nth_equalityI)
  show "length (results s) = length (map (\<lambda>i. Some (h i)) [0..<n])"
    using pool_invD(2) [OF inv] by simp
next
  fix i assume "i < length (results s)"
  with pool_invD(2) [OF inv] have i: "i < n" by simp
  from unfinished_empty [OF fin] have all: "\<forall>w<length (workers s). workers s ! w = Returned" .
  then have nf: "\<not> in_flight (workers s) i" by (auto simp: in_flight_def)
  from i some have "workers s \<noteq> []" by auto
  then have "0 < length (workers s)" by simp
  with all have "workers s ! 0 = Returned" by blast
  with \<open>0 < length (workers s)\<close> have "Returned \<in> set (workers s)" by (metis nth_mem)
  from pool_invD(6) [OF inv this] have "cursor s = n" .
  with pool_invD(4) [OF inv i] nf i have "results s ! i = Some (h i)" by simp
  with i show "results s ! i = map (\<lambda>i. Some (h i)) [0..<n] ! i" by simp
qed

lemma run_pool_positional:
  assumes mapper: "\<forall>i<length items. mapper (items ! i) i = Inr (h i)"
    and k: "0 < k \<or> length items = 0"
  shows "report (run_workers paced items mapper sched (new_pool (length items) k)) =
           \<lparr>settled = Inr (map (\<lambda>i. Some (h i)) [0..<length items]),
            handler_calls = calls (run_workers paced items mapper sched (new_pool (length items) k)),
            spawned = k\<rparr>"
proof -
  let ?s = "run_workers paced items mapper sched (new_pool (length items) k)"
  from run_workers_inv [where items = items and mapper = mapper and h = h, OF mapper new_pool_inv]
  have inv: "pool_inv (length items) h ?s" and fin: "unfinished ?s = []" by blast+
  have len: "length (workers ?s) = k"
    by (simp add: run_workers_length new_pool_def)
  with k have "workers ?s \<noteq> [] \<or> length items = 0" by auto
  from pool_inv_finished [OF inv fin this] pool_invD(1) [OF inv] len
  show ?thesis by (simp add: report_def)
qed

lemma toLength_positive: "1 \<le> a \<Longrightarrow> 0 < toLength (Fin a)"
  by simp

text \<open>An example handler for the concrete runs.\<close>

definition shout :: "string \<Rightarrow> nat \<Rightarrow> thrown + string" where
  "shout x i = Inr (x @ ''!'')"

text \<open>
  Both copies of the runner return the handler's results in input order, whatever the
  schedule.
\<close>

lemma runner_positional:
  assumes "isFinite concurrency" and "js_le (Fin 1) concurrency"
    and "\<forall>i<length items. mapper (items ! i) i = Inr (h i)"
  shows "settled (mapWithConcurrency items concurrency mapper sched) =
           Inr (map (\<lambda>i. Some (h i)) [0..<length items]) \<and>
         settled (mapWithConcurrency_lessons items concurrency mapper sched) =
           Inr (map (\<lambda>i. Some (h i)) [0..<length items])"
proof -
  from assms(1,2) obtain a where a: "concurrency = Fin a" "1 \<le> a"
    by (cases concurrency) auto
  have pos: "\<not> js_le concurrency (Fin 0)" using a by simp
  show ?thesis
  proof (cases "length items = 0")
    case True
    then have "settled (mapWithConcurrency_lessons items concurrency mapper sched) = Inr []"
      unfolding mapWithConcurrency_lessons_def Let_def
      by (subst run_pool_positional [where items = items and mapper = mapper and h = h, OF assms(3)])
        simp_all
    with True a pos show ?thesis by (simp add: mapWithConcurrency_def)
  next
    case False
    then have n: "(1::rat) \<le> of_nat (length items)" by (cases items) simp_all
    have "1 \<le> \<lfloor>a\<rfloor>" using a(2) by linarith
    then have fl: "(1::rat) \<le> of_int \<lfloor>a\<rfloor>" by linarith
    define k1 where "k1 = toLength (js_min (js_floor concurrency) (num (length items)))"
    define k2 where "k2 = toLength (js_min concurrency (num (length items)))"
    have k1: "0 < k1"
      unfolding k1_def using a n fl by (auto simp del: toLength.simps intro!: toLength_positive)
    have k2: "0 < k2"
      unfolding k2_def using a n by (auto simp del: toLength.simps intro!: toLength_positive)
    have e1: "mapWithConcurrency items concurrency mapper sched =
                report (run_workers False items mapper sched (new_pool (length items) k1))"
      using False pos assms(1) unfolding mapWithConcurrency_def Let_def k1_def by simp
    have e2: "mapWithConcurrency_lessons items concurrency mapper sched =
                report (run_workers True items mapper sched (new_pool (length items) k2))"
      unfolding mapWithConcurrency_lessons_def Let_def k2_def by simp
    have "settled (mapWithConcurrency items concurrency mapper sched) =
            Inr (map (\<lambda>i. Some (h i)) [0..<length items])"
      unfolding e1
      by (subst run_pool_positional [where items = items and mapper = mapper and h = h,
                      OF assms(3) disjI1 [OF k1]]) simp
    moreover have "settled (mapWithConcurrency_lessons items concurrency mapper sched) =
            Inr (map (\<lambda>i. Some (h i)) [0..<length items])"
      unfolding e2
      by (subst run_pool_positional [where items = items and mapper = mapper and h = h,
                      OF assms(3) disjI1 [OF k2]]) simp
    ultimately show ?thesis by simp
  qed
qed

text \<open>
  Claim C1. For every list of units, every finite concurrency \<open>\<ge> 1\<close> and every
  schedule of the workers (every order in which they claim and complete units): if the
  handler resolves to \<open>h i\<close> for the unit at index \<open>i\<close>, the runner resolves to an
  array of the input's length whose element at index \<open>i\<close> is \<open>h i\<close>. This holds for
  the exported runner and for the copy in generate-lessons.ts.
\<close>

theorem mapWithConcurrency_positional:
  assumes "isFinite concurrency" and "js_le (Fin 1) concurrency"
    and "\<forall>i<length items. mapper (items ! i) i = Inr (h i)"
  shows "settled (mapWithConcurrency items concurrency mapper sched) =
           Inr (map (\<lambda>i. Some (h i)) [0..<length items]) \<and>
         settled (mapWithConcurrency_lessons items concurrency mapper sched) =
           Inr (map (\<lambda>i. Some (h i)) [0..<length items])"
  using assms by (rule runner_positional)

theorem mapWithConcurrency_positional_witness:
  "settled (mapWithConcurrency [''a'', ''b'', ''c''] (Fin 2) shout [1, 0, 1, 1, 0]) =
     Inr [Some ''a!'', Some ''b!'', Some ''c!''] \<and>
   settled (mapWithConcurrency_lessons [''a'', ''b'', ''c''] (Fin 2) shout [1, 0, 1, 1, 0]) =
     Inr [Some ''a!'', Some ''b!'', Some ''c!'']"
proof -
  have f: "isFinite (Fin 2)" and c: "js_le (Fin 1) (Fin 2)" by simp_all
  have m: "\<forall>i<length [''a'', ''b'', ''c''].
             shout ([''a'', ''b'', ''c''] ! i) i = Inr ([''a'', ''b'', ''c''] ! i @ ''!'')"
    by (simp add: shout_def)
  have u: "[0..<length [''a'', ''b'', ''c'']] = [0, 1, 2]" by (simp add: upt_rec)
  from mapWithConcurrency_positional
    [where items = "[''a'', ''b'', ''c'']" and mapper = shout
       and h = "\<lambda>i. [''a'', ''b'', ''c''] ! i @ ''!''" and sched = "[1, 0, 1, 1, 0]", OF f c m]
  show ?thesis unfolding u by simp
qed

text \<open>
  The exported runner of utils/concurrency.ts fails fast: a concurrency that is not
  finite or not positive is rejected before any worker exists or any handler runs, and
  an empty list returns the empty array with no worker spawned.
\<close>

lemma mapWithConcurrency_fails_fast:
  assumes "\<not> isFinite concurrency \<or> js_le concurrency (Fin 0)"
  shows "mapWithConcurrency items concurrency mapper sched =
           \<lparr>settled = Inl (Error ''Concurrency must be a positive number.''),
            handler_calls = [], spawned = 0\<rparr>"
  using assms by (auto simp: mapWithConcurrency_def)

lemma mapWithConcurrency_empty:
  assumes "isFinite concurrency" "\<not> js_le concurrency (Fin 0)"
  shows "mapWithConcurrency [] concurrency mapper sched =
           \<lparr>settled = Inr [], handler_calls = [], spawned = 0\<rparr>"
  using assms by (simp add: mapWithConcurrency_def)

lemma run_workers_no_workers:
  "run_workers paced items mapper sched (new_pool n 0) = new_pool n 0"
  by (subst run_workers.simps) (simp add: unfinished_def new_pool_def)

text \<open>
  Claim C9 fails on the copy of the runner in generate-lessons.ts, which has no such
  check: with concurrency 0 or NaN (\<open>CONCURRENCY\<close> is \<open>parseInt\<close> of an environment
  variable) it throws nothing; it spawns no worker, invokes no handler and resolves to
  an array of the input's length whose slots were never written.
\<close>

theorem mapWithConcurrency_lessons_no_validation:
  "mapWithConcurrency_lessons items (Fin 0) mapper sched =
     \<lparr>settled = Inr (replicate (length items) None), handler_calls = [], spawned = 0\<rparr> \<and>
   mapWithConcurrency_lessons items NaN mapper sched =
     \<lparr>settled = Inr (replicate (length items) None), handler_calls = [], spawned = 0\<rparr> \<and>
   mapWithConcurrency_lessons [''a'', ''b''] (Fin 0) shout [] =
     \<lparr>settled = Inr [None, None], handler_calls = [], spawned = 0\<rparr>"
proof -
  have z: "toLength (js_min (Fin 0) (num n)) = 0" "toLength (js_min NaN (num n)) = 0" for n
    by simp_all
  have r: "report (new_pool n 0 :: 'r pool) =
             \<lparr>settled = Inr (replicate n None), handler_calls = [], spawned = 0\<rparr>" for n
    by (simp add: report_def new_pool_def)
  show ?thesis
    unfolding mapWithConcurrency_lessons_def Let_def z run_workers_no_workers r by simp
qed


section \<open>Escape sanitization (generate-lessons.ts, sanitizeJsonBackslashes)\<close>

text \<open>
  JavaScript strings are modelled as \<open>string\<close> (lists of characters); the
  characters the code inspects (backslash, quote, brackets, the escape letters) are
  all ASCII. The backslash is \<open>CHR 0x5C\<close> and the double quote \<open>CHR 0x22\<close>.
\<close>

abbreviation bslash :: char where
  "bslash \<equiv> CHR 0x5C"

abbreviation dquote :: char where
  "dquote \<equiv> CHR 0x22"

definition validEscapes :: "char set" where
  "validEscapes = {dquote, bslash, CHR ''/'', CHR ''b'', CHR ''f'', CHR ''n'', CHR ''r'', CHR ''t'', CHR ''u''}"

text \<open>
  The while loop over \<open>chars\<close>: a backslash that has a successor is either passed
  through together with a valid escape character (advance by two) or doubled (advance
  by one, the successor is looked at again); every other character, and a backslash
  at the very end, is copied.
\<close>

fun sanitizeJsonBackslashes :: "string \<Rightarrow> string" where
  "sanitizeJsonBackslashes [] = []"
| "sanitizeJsonBackslashes [c] = [c]"
| "sanitizeJsonBackslashes (c # next # rest) =
     (if c = bslash then
        (if next \<in> validEscapes then c # next # sanitizeJsonBackslashes rest
         else bslash # bslash # sanitizeJsonBackslashes (next # rest))
      else c # sanitizeJsonBackslashes (next # rest))"

lemma sanitize_plain_Cons:
  "c \<noteq> bslash \<Longrightarrow> sanitizeJsonBackslashes (c # cs) = c # sanitizeJsonBackslashes cs"
  by (cases cs) simp_all

lemma sanitize_valid_pair:
  "e \<in> validEscapes \<Longrightarrow>
   sanitizeJsonBackslashes (bslash # e # cs) = bslash # e # sanitizeJsonBackslashes cs"
  by simp

lemma bslash_valid: "bslash \<in> validEscapes"
  by (simp add: validEscapes_def)

text \<open>
  Claim C10. Escape sanitization is idempotent: sanitizing an already sanitized text
  returns it unchanged, for every input string.
\<close>

theorem sanitizeJsonBackslashes_idempotent:
  "sanitizeJsonBackslashes (sanitizeJsonBackslashes s) = sanitizeJsonBackslashes s"
proof (induction s rule: sanitizeJsonBackslashes.induct)
  case 1
  show ?case by simp
next
  case (2 c)
  show ?case by simp
next
  case (3 c "next" rest)
  show ?case
  proof (cases "c = bslash")
    case False
    with 3 show ?thesis by (simp add: sanitize_plain_Cons)
  next
    case True
    show ?thesis
    proof (cases "next \<in> validEscapes")
      case True
      with \<open>c = bslash\<close> 3 show ?thesis by simp
    next
      case False
      with \<open>c = bslash\<close> 3 show ?thesis by (simp add: bslash_valid)
    qed
  qed
qed

section \<open>JSON values and JSON.parse\<close>

text \<open>
  \<open>JSON.parse\<close> is the platform's, not the repository's; it is modelled after
  ECMA-404 as a lexer followed by a parser over tokens. A string value is the list of
  its UTF-16 code units (so a \<open>\\uXXXX\<close> escape has a value); a number is kept as
  its lexeme, since no claim depends on its numeric value; an object keeps its members
  in textual order, the last member winning on a repeated key.
\<close>

datatype json =
    JNull
  | JBool bool
  | JNumber string
  | JString "nat list"
  | JArray "json list"
  | JObject "(nat list \<times> json) list"

datatype token =
    TLBrace | TRBrace | TLBracket | TRBracket | TColon | TComma
  | TString "nat list" | TNumber string | TTrue | TFalse | TNull

abbreviation str :: "string \<Rightarrow> nat list" where
  "str s \<equiv> map of_char s"

definition is_json_ws :: "char \<Rightarrow> bool" where
  "is_json_ws c \<longleftrightarrow> c = CHR 0x20 \<or> c = CHR 0x09 \<or> c = CHR 0x0A \<or> c = CHR 0x0D"

definition is_digit :: "char \<Rightarrow> bool" where
  "is_digit c \<longleftrightarrow> (48::nat) \<le> of_char c \<and> of_char c \<le> (57::nat)"

definition hex_digit :: "char \<Rightarrow> nat option" where
  "hex_digit c =
     (let n = (of_char c :: nat)
      in if 48 \<le> n \<and> n \<le> 57 then Some (n - 48)
         else if 65 \<le> n \<and> n \<le> 70 then Some (n - 55)
         else if 97 \<le> n \<and> n \<le> 102 then Some (n - 87)
         else None)"

definition hex4 :: "char \<Rightarrow> char \<Rightarrow> char \<Rightarrow> char \<Rightarrow> nat option" where
  "hex4 a b c d =
     (case (hex_digit a, hex_digit b, hex_digit c, hex_digit d) of
        (Some x, Some y, Some z, Some w) \<Rightarrow> Some (((x * 16 + y) * 16 + z) * 16 + w)
      | _ \<Rightarrow> None)"

definition simple_escape :: "char \<Rightarrow> nat option" where
  "simple_escape e =
     (if e = dquote then Some 34
      else if e = bslash then Some 92
      else if e = CHR ''/'' then Some 47
      else if e = CHR ''b'' then Some 8
      else if e = CHR ''f'' then Some 12
      else if e = CHR ''n'' then Some 10
      else if e = CHR ''r'' then Some 13
      else if e = CHR ''t'' then Some 9
      else None)"

text \<open>
  The characters of a string literal after its opening quote, up to the closing quote.
  A backslash followed by a character outside the escape set is an error for
  \<open>JSON.parse\<close> (\<open>lenient = False\<close>). The lenient reading, used only to say what a
  text with such backslashes means, takes that backslash as a literal character and
  goes on with the character after it.
\<close>

fun lex_string :: "bool \<Rightarrow> string \<Rightarrow> nat list \<Rightarrow> (nat list \<times> string) option" where
  "lex_string lenient [] acc = None"
| "lex_string lenient (c # cs) acc =
     (if c = dquote then Some (rev acc, cs)
      else if c = bslash then
        (case cs of
           [] \<Rightarrow> None
         | e # es \<Rightarrow>
             if e = CHR ''u'' then
               (case es of
                  h1 # h2 # h3 # h4 # rest \<Rightarrow>
                    (case hex4 h1 h2 h3 h4 of
                       Some n \<Rightarrow> lex_string lenient rest (n # acc)
                     | None \<Rightarrow> None)
                | _ \<Rightarrow> None)
             else
               (case simple_escape e of
                  Some n \<Rightarrow> lex_string lenient es (n # acc)
                | None \<Rightarrow>
                    if lenient then lex_string lenient (e # es) (92 # acc) else None))
      else if (of_char c :: nat) < 32 then None
      else lex_string lenient cs (of_char c # acc))"

text \<open>
  A number token is the longest run of number characters, which must match the JSON
  number grammar: an optional minus, \<open>0\<close> or a digit run without leading zero, an
  optional fraction and an optional exponent.
\<close>

definition number_char :: "char \<Rightarrow> bool" where
  "number_char c \<longleftrightarrow>
     is_digit c \<or> c = CHR ''-'' \<or> c = CHR ''+'' \<or> c = CHR ''.'' \<or> c = CHR ''e'' \<or> c = CHR ''E''"

definition digits1 :: "string \<Rightarrow> bool" where
  "digits1 cs \<longleftrightarrow> cs \<noteq> [] \<and> list_all is_digit cs"

definition valid_exp :: "string \<Rightarrow> bool" where
  "valid_exp cs =
     (case cs of
        [] \<Rightarrow> True
      | c # r \<Rightarrow>
          (c = CHR ''e'' \<or> c = CHR ''E'') \<and>
          (case r of
             [] \<Rightarrow> False
           | s # r' \<Rightarrow> if s = CHR ''+'' \<or> s = CHR ''-'' then digits1 r' else digits1 r))"

definition valid_frac_exp :: "string \<Rightarrow> bool" where
  "valid_frac_exp cs =
     (case cs of
        [] \<Rightarrow> True
      | c # r \<Rightarrow>
          if c = CHR ''.'' then takeWhile is_digit r \<noteq> [] \<and> valid_exp (dropWhile is_digit r)
          else valid_exp cs)"

definition valid_int :: "string \<Rightarrow> bool" where
  "valid_int cs =
     (case cs of
        [] \<Rightarrow> False
      | c # r \<Rightarrow>
          if c = CHR ''0'' then valid_frac_exp r
          else is_digit c \<and> valid_frac_exp (dropWhile is_digit r))"

definition valid_number :: "string \<Rightarrow> bool" where
  "valid_number cs =
     (case cs of
        [] \<Rightarrow> False
      | c # r \<Rightarrow> if c = CHR ''-'' then valid_int r else valid_int cs)"

lemma lex_string_shorter:
  "lex_string lenient cs acc = Some (s, rest) \<Longrightarrow> length rest < length cs"
proof (induction lenient cs acc rule: lex_string.induct)
  case (1 lenient acc)
  then show ?case by simp
next
  case (2 lenient c cs acc)
  then show ?case
    by (auto split: if_splits list.splits option.splits) fastforce+
qed

fun push_token :: "token \<Rightarrow> token list option \<Rightarrow> token list option" where
  "push_token t None = None"
| "push_token t (Some ts) = Some (t # ts)"

definition next_token :: "bool \<Rightarrow> char \<Rightarrow> string \<Rightarrow> (token option \<times> string) option" where
  "next_token lenient c cs =
     (if is_json_ws c then Some (None, cs)
      else if c = CHR ''{'' then Some (Some TLBrace, cs)
      else if c = CHR ''}'' then Some (Some TRBrace, cs)
      else if c = CHR ''['' then Some (Some TLBracket, cs)
      else if c = CHR '']'' then Some (Some TRBracket, cs)
      else if c = CHR '':'' then Some (Some TColon, cs)
      else if c = CHR '','' then Some (Some TComma, cs)
      else if c = dquote then
        (case lex_string lenient cs [] of
           None \<Rightarrow> None
         | Some (s, rest) \<Rightarrow> Some (Some (TString s), rest))
      else if c = CHR ''-'' \<or> is_digit c then
        (if valid_number (c # takeWhile number_char cs)
         then Some (Some (TNumber (c # takeWhile number_char cs)), dropWhile number_char cs)
         else None)
      else if c = CHR ''t'' \<and> startsWith cs ''rue'' then Some (Some TTrue, drop 3 cs)
      else if c = CHR ''f'' \<and> startsWith cs ''alse'' then Some (Some TFalse, drop 4 cs)
      else if c = CHR ''n'' \<and> startsWith cs ''ull'' then Some (Some TNull, drop 3 cs)
      else None)"

lemma next_token_shorter:
  assumes "next_token lenient c cs = Some (tok, rest)"
  shows "length rest \<le> length cs"
proof -
  have "length (dropWhile number_char cs) \<le> length cs" by (rule length_dropWhile_le)
  with assms show ?thesis
    unfolding next_token_def
    by (auto split: if_splits option.splits dest: lex_string_shorter)
qed

function lex :: "bool \<Rightarrow> string \<Rightarrow> token list option" where
  "lex lenient [] = Some []"
| "lex lenient (c # cs) =
     (case next_token lenient c cs of
        None \<Rightarrow> None
      | Some (tok, rest) \<Rightarrow>
          (case tok of
             None \<Rightarrow> lex lenient rest
           | Some t \<Rightarrow> push_token t (lex lenient rest)))"
  by pat_completeness auto
termination
proof (relation "measure (\<lambda>(lenient, cs). length cs)")
  show "wf (measure (\<lambda>(lenient, cs). length cs))" by simp
next
  fix lenient c cs x2 tok rest
  assume "next_token lenient c cs = Some x2" "(tok, rest) = x2"
  then have "next_token lenient c cs = Some (tok, rest)" by simp
  from next_token_shorter [OF this]
  show "((lenient, rest), lenient, c # cs) \<in> measure (\<lambda>(lenient, cs). length cs)" by simp
next
  fix lenient c cs x2 tok rest t
  assume "next_token lenient c cs = Some x2" "(tok, rest) = x2"
  then have "next_token lenient c cs = Some (tok, rest)" by simp
  from next_token_shorter [OF this]
  show "((lenient, rest), lenient, c # cs) \<in> measure (\<lambda>(lenient, cs). length cs)" by simp
qed

declare lex.simps [simp del]

text \<open>
  The parser is a pushdown automaton over the tokens: the stack holds the arrays and
  objects that are still open, with the elements or members read so far (latest
  first) and, for an object, the key whose value is being read.
\<close>

datatype frame = ArrayFrame "json list" | ObjectFrame "(nat list \<times> json) list" "nat list"

datatype expect = WantValue | WantValueOrClose | WantKeyOrClose | HaveValue json

fun scalar :: "token \<Rightarrow> json option" where
  "scalar TNull = Some JNull"
| "scalar TTrue = Some (JBool True)"
| "scalar TFalse = Some (JBool False)"
| "scalar (TNumber x) = Some (JNumber x)"
| "scalar (TString s) = Some (JString s)"
| "scalar _ = None"

fun parse_tokens :: "frame list \<Rightarrow> expect \<Rightarrow> token list \<Rightarrow> json option" where
  "parse_tokens stack e [] =
     (case (stack, e) of ([], HaveValue v) \<Rightarrow> Some v | _ \<Rightarrow> None)"
| "parse_tokens stack e (t # ts) =
     (case e of
        WantValue \<Rightarrow>
          (if t = TLBracket then parse_tokens (ArrayFrame [] # stack) WantValueOrClose ts
           else if t = TLBrace then parse_tokens stack WantKeyOrClose ts
           else (case scalar t of
                   Some v \<Rightarrow> parse_tokens stack (HaveValue v) ts
                 | None \<Rightarrow> None))
      | WantValueOrClose \<Rightarrow>
          (if t = TRBracket then
             (case stack of
                ArrayFrame [] # st \<Rightarrow> parse_tokens st (HaveValue (JArray [])) ts
              | _ \<Rightarrow> None)
           else if t = TLBracket then parse_tokens (ArrayFrame [] # stack) WantValueOrClose ts
           else if t = TLBrace then parse_tokens stack WantKeyOrClose ts
           else (case scalar t of
                   Some v \<Rightarrow> parse_tokens stack (HaveValue v) ts
                 | None \<Rightarrow> None))
      | WantKeyOrClose \<Rightarrow>
          (case t of
             TRBrace \<Rightarrow> parse_tokens stack (HaveValue (JObject [])) ts
           | TString k \<Rightarrow>
               (case ts of
                  TColon # r \<Rightarrow> parse_tokens (ObjectFrame [] k # stack) WantValue r
                | _ \<Rightarrow> None)
           | _ \<Rightarrow> None)
      | HaveValue v \<Rightarrow>
          (case stack of
             [] \<Rightarrow> None
           | ArrayFrame acc # st \<Rightarrow>
               (if t = TComma then parse_tokens (ArrayFrame (v # acc) # st) WantValue ts
                else if t = TRBracket then
                  parse_tokens st (HaveValue (JArray (rev (v # acc)))) ts
                else None)
           | ObjectFrame acc k # st \<Rightarrow>
               (if t = TComma then
                  (case ts of
                     TString k' # TColon # r \<Rightarrow>
                       parse_tokens (ObjectFrame ((k, v) # acc) k' # st) WantValue r
                   | _ \<Rightarrow> None)
                else if t = TRBrace then
                  parse_tokens st (HaveValue (JObject (rev ((k, v) # acc)))) ts
                else None)))"

text \<open>
  \<open>JSON.parse\<close> throws a \<open>SyntaxError\<close> whose message depends on the engine; the
  model gives it a fixed message.
\<close>

definition JSON_parse_mode :: "bool \<Rightarrow> string \<Rightarrow> thrown + json" where
  "JSON_parse_mode lenient text =
     (case lex lenient text of
        None \<Rightarrow> Inl (Error ''SyntaxError'')
      | Some ts \<Rightarrow>
          (case parse_tokens [] WantValue ts of
             None \<Rightarrow> Inl (Error ''SyntaxError'')
           | Some v \<Rightarrow> Inr v))"

definition JSON_parse :: "string \<Rightarrow> thrown + json" where
  "JSON_parse text = JSON_parse_mode False text"

text \<open>
  The lenient reading of a text: JSON in which a backslash before a character outside
  the escape set stands for itself. It is not part of the program; it says what a text
  with such backslashes is meant to denote.
\<close>

definition JSON_parse_lenient :: "string \<Rightarrow> thrown + json" where
  "JSON_parse_lenient text = JSON_parse_mode True text"


section \<open>Recovery parser (generate-lessons.ts parseJsonResponse, utils/json.ts parseJsonFromModelText)\<close>

text \<open>
  White space as \<open>String.prototype.trim\<close> and the regular expression class
  \<open>\\s\<close> see it, among one-byte characters. \<open>indexOf\<close> and \<open>lastIndexOf\<close> return
  \<open>None\<close> where JavaScript returns \<open>-1\<close>.
\<close>

definition is_js_space :: "char \<Rightarrow> bool" where
  "is_js_space c \<longleftrightarrow>
     c = CHR 0x09 \<or> c = CHR 0x0A \<or> c = CHR 0x0B \<or> c = CHR 0x0C \<or> c = CHR 0x0D \<or>
     c = CHR 0x20 \<or> c = CHR 0xA0"

definition trim :: "string \<Rightarrow> string" where
  "trim s = rev (dropWhile is_js_space (rev (dropWhile is_js_space s)))"

fun indexOf_from :: "nat \<Rightarrow> 'a list \<Rightarrow> 'a list \<Rightarrow> nat option" where
  "indexOf_from i [] p = (if p = [] then Some i else None)"
| "indexOf_from i (c # cs) p =
     (if startsWith (c # cs) p then Some i else indexOf_from (i + 1) cs p)"

definition indexOf :: "'a list \<Rightarrow> 'a list \<Rightarrow> nat option" where
  "indexOf s p = indexOf_from 0 s p"

fun lastIndexOf_from :: "nat \<Rightarrow> nat option \<Rightarrow> 'a list \<Rightarrow> 'a list \<Rightarrow> nat option" where
  "lastIndexOf_from i found [] p = (if p = [] then Some i else found)"
| "lastIndexOf_from i found (c # cs) p =
     lastIndexOf_from (i + 1) (if startsWith (c # cs) p then Some i else found) cs p"

definition lastIndexOf :: "'a list \<Rightarrow> 'a list \<Rightarrow> nat option" where
  "lastIndexOf s p = lastIndexOf_from 0 None s p"

definition slice :: "'a list \<Rightarrow> nat \<Rightarrow> nat \<Rightarrow> 'a list" where
  "slice s a b = take (b - a) (drop a s)"

text \<open>
  The match of \<open>/```(?:json)?\\s*([\\s\\S]*?)```/\<close> (with the \<open>i\<close> flag in utils/json.ts, without
  it in generate-lessons.ts), returning capture group 1. The match starts at the first
  triple backtick; the optional tag and the white space are taken greedily, the capture
  lazily up to the next triple backtick. A match that fails there fails at every later
  start as well, because the skipped tag and white space hold no backtick.
\<close>

definition fence_match :: "bool \<Rightarrow> string \<Rightarrow> string option" where
  "fence_match ignoreCase text =
     (case indexOf text ''```'' of
        None \<Rightarrow> None
      | Some p \<Rightarrow>
          let after = drop (p + 3) text;
              tag = take 4 after;
              after_tag =
                (if (if ignoreCase then toLowerCase tag else tag) = ''json''
                 then drop 4 after else after);
              body = dropWhile is_js_space after_tag
          in (case indexOf body ''```'' of
                None \<Rightarrow> None
              | Some q \<Rightarrow> Some (take q body)))"

definition extractFencedJson :: "string \<Rightarrow> string option" where
  "extractFencedJson text = map_option trim (fence_match True text)"

definition extractDelimitedJson :: "string \<Rightarrow> string \<Rightarrow> string \<Rightarrow> string option" where
  "extractDelimitedJson text start end' =
     (case (indexOf text start, lastIndexOf text end') of
        (Some startIndex, Some endIndex) \<Rightarrow>
          if endIndex \<le> startIndex then None
          else Some (trim (slice text startIndex (endIndex + 1)))
      | _ \<Rightarrow> None)"

text \<open>
  utils/json.ts, \<open>parseJsonFromModelText\<close>. \<open>fenced_value\<close> is its first block:
  \<open>if (fenced) { try { return JSON.parse(fenced) } catch {} }\<close>; \<open>delimited_value\<close> is
  \<open>if (candidate) return JSON.parse(candidate)\<close> for one pair of delimiters.
\<close>

definition fenced_value :: "string \<Rightarrow> json option" where
  "fenced_value trimmed =
     (case extractFencedJson trimmed of
        None \<Rightarrow> None
      | Some fenced \<Rightarrow>
          if fenced = [] then None
          else (case JSON_parse fenced of Inr v \<Rightarrow> Some v | Inl e \<Rightarrow> None))"

definition delimited_value :: "string \<Rightarrow> string \<Rightarrow> string \<Rightarrow> (thrown + json) option" where
  "delimited_value trimmed start end' =
     (case extractDelimitedJson trimmed start end' of
        None \<Rightarrow> None
      | Some candidate \<Rightarrow> if candidate = [] then None else Some (JSON_parse candidate))"

definition parseJsonFromModelText :: "string \<Rightarrow> thrown + json" where
  "parseJsonFromModelText raw =
     (let trimmed = trim raw in
      if trimmed = [] then Inl (Error ''Model returned an empty response.'')
      else
        (case fenced_value trimmed of
           Some v \<Rightarrow> Inr v
         | None \<Rightarrow>
             (case JSON_parse trimmed of
                Inr v \<Rightarrow> Inr v
              | Inl e \<Rightarrow>
                  (case delimited_value trimmed ''{'' ''}'' of
                     Some r \<Rightarrow> r
                   | None \<Rightarrow>
                       (case delimited_value trimmed ''['' '']'' of
                          Some r \<Rightarrow> r
                        | None \<Rightarrow> Inl (Error ''Model response did not contain valid JSON.''))))))"

text \<open>
  generate-lessons.ts, \<open>repairTruncatedJson\<close>. Step 1 is the loop of at most 20
  attempts that cuts the text at the last quote preceded by an even number of
  backslashes; step 2 removes a trailing comma (\<open>/,\\s*$/\<close>); step 3 scans the text,
  counting braces and brackets outside strings, and appends the closers.
\<close>

fun trim_to_last_quote :: "nat \<Rightarrow> string \<Rightarrow> string" where
  "trim_to_last_quote 0 s = s"
| "trim_to_last_quote (Suc attempts) s =
     (case lastIndexOf s [dquote] of
        None \<Rightarrow> s
      | Some lastQuote \<Rightarrow>
          let backslashCount = length (takeWhile (\<lambda>c. c = bslash) (rev (take lastQuote s)))
          in if backslashCount mod 2 \<noteq> 0 then trim_to_last_quote attempts (take lastQuote s)
             else take (lastQuote + 1) s)"

definition strip_trailing_comma :: "string \<Rightarrow> string" where
  "strip_trailing_comma s =
     (case dropWhile is_js_space (rev s) of
        [] \<Rightarrow> s
      | c # kept \<Rightarrow> if c = CHR '','' then rev kept else s)"

record scan =
  openBraces :: int
  openBrackets :: int
  inString :: bool
  escaped :: bool

definition scan_char :: "scan \<Rightarrow> char \<Rightarrow> scan" where
  "scan_char st ch =
     (if escaped st then st\<lparr>escaped := False\<rparr>
      else if ch = bslash then st\<lparr>escaped := True\<rparr>
      else if ch = dquote then st\<lparr>inString := \<not> inString st\<rparr>
      else if \<not> inString st then
        (if ch = CHR ''{'' then st\<lparr>openBraces := openBraces st + 1\<rparr>
         else if ch = CHR ''}'' then st\<lparr>openBraces := openBraces st - 1\<rparr>
         else if ch = CHR ''['' then st\<lparr>openBrackets := openBrackets st + 1\<rparr>
         else if ch = CHR '']'' then st\<lparr>openBrackets := openBrackets st - 1\<rparr>
         else st)
      else st)"

definition count_open :: "string \<Rightarrow> scan" where
  "count_open s =
     foldl scan_char \<lparr>openBraces = 0, openBrackets = 0, inString = False, escaped = False\<rparr> s"

definition repairTruncatedJson :: "string \<Rightarrow> string" where
  "repairTruncatedJson raw =
     (let s = strip_trailing_comma (trim_to_last_quote 20 raw);
          st = count_open s
      in s @ replicate (nat (openBrackets st)) (CHR '']'') @
             replicate (nat (openBraces st)) (CHR ''}''))"

definition message :: "thrown \<Rightarrow> string" where
  "message e = (case e of Error m \<Rightarrow> m | _ \<Rightarrow> ''unknown'')"

text \<open>
  generate-lessons.ts, \<open>parseJsonResponse\<close>: the extraction of the payload (fence, else
  the text from the first \<open>{\<close> to the last \<open>}\<close>, else the raw text), then the chain of
  parse attempts: direct, after escape sanitization, after truncation repair.
\<close>

definition extractJsonPayload :: "string \<Rightarrow> string" where
  "extractJsonPayload raw =
     (case fence_match False raw of
        Some captured \<Rightarrow> trim captured
      | None \<Rightarrow>
          (case (indexOf raw ''{'', lastIndexOf raw ''}'') of
             (Some braceStart, Some braceEnd) \<Rightarrow>
               if braceEnd > braceStart then slice raw braceStart (braceEnd + 1) else raw
           | _ \<Rightarrow> raw))"

definition parseJsonPayload :: "string \<Rightarrow> thrown + json" where
  "parseJsonPayload jsonStr =
     (case JSON_parse jsonStr of
        Inr v \<Rightarrow> Inr v
      | Inl e1 \<Rightarrow>
          let sanitized = sanitizeJsonBackslashes jsonStr
          in (case JSON_parse sanitized of
                Inr v \<Rightarrow> Inr v
              | Inl e2 \<Rightarrow>
                  let repaired = repairTruncatedJson sanitized
                  in (case JSON_parse repaired of
                        Inr v \<Rightarrow> Inr v
                      | Inl e \<Rightarrow>
                          Inl (Error (''Could not parse JSON from response: '' @ message e)))))"

definition parseJsonResponse :: "string \<Rightarrow> thrown + json" where
  "parseJsonResponse raw = parseJsonPayload (extractJsonPayload raw)"

text \<open>
  extract-subsections.ts has a function of the same name for the same kind of reply
  (lines 373 to 390). It parses the raw text first and looks for a fence, and then for
  the braces, only when that parse fails; what \<open>JSON.parse\<close> throws on the extracted
  text propagates.
\<close>

definition parseJsonResponse_subsections :: "string \<Rightarrow> thrown + json" where
  "parseJsonResponse_subsections raw =
     (case JSON_parse raw of
        Inr v \<Rightarrow> Inr v
      | Inl e \<Rightarrow>
          (case fence_match False raw of
             Some captured \<Rightarrow> JSON_parse (trim captured)
           | None \<Rightarrow>
               (case (indexOf raw ''{'', lastIndexOf raw ''}'') of
                  (Some braceStart, Some braceEnd) \<Rightarrow>
                    if braceEnd > braceStart then JSON_parse (slice raw braceStart (braceEnd + 1))
                    else Inl (Error ''Could not parse JSON from response'')
                | _ \<Rightarrow> Inl (Error ''Could not parse JSON from response''))))"

subsection \<open>Sanitization and the lexer\<close>

text \<open>
  Lexing the sanitized text strictly gives the tokens of the lenient reading of the
  original text: the sanitizer and the string lexer walk over escape pairs in step.
\<close>

lemma simple_escape_valid: "simple_escape e = Some n \<Longrightarrow> e \<in> validEscapes"
  by (auto simp: simple_escape_def validEscapes_def split: if_splits)

lemma simple_escape_invalid:
  "simple_escape e = None \<Longrightarrow> e \<noteq> CHR ''u'' \<Longrightarrow> e \<notin> validEscapes"
  by (auto simp: simple_escape_def validEscapes_def split: if_splits)

lemma simple_escape_bslash: "simple_escape bslash = Some 92"
  by (simp add: simple_escape_def)

lemma u_valid: "CHR ''u'' \<in> validEscapes"
  by (simp add: validEscapes_def)

lemma hex_digit_not_bslash: "hex_digit c = Some n \<Longrightarrow> c \<noteq> bslash"
  by (auto simp: hex_digit_def)

lemma hex4_not_bslash:
  "hex4 a b c d = Some n \<Longrightarrow> a \<noteq> bslash \<and> b \<noteq> bslash \<and> c \<noteq> bslash \<and> d \<noteq> bslash"
  by (auto simp: hex4_def split: option.splits dest: hex_digit_not_bslash)

lemma lex_string_sanitize:
  "l \<Longrightarrow> lex_string l cs acc = Some (s, rest) \<Longrightarrow>
   lex_string False (sanitizeJsonBackslashes cs) acc = Some (s, sanitizeJsonBackslashes rest)"
proof (induction l cs acc rule: lex_string.induct)
  case (1 lenient acc)
  then show ?case by simp
next
  case (2 lenient c cs acc)
  show ?case
  proof (cases "c = dquote")
    case True
    with "2.prems" show ?thesis by (simp add: sanitize_plain_Cons)
  next
    case nq: False
    show ?thesis
    proof (cases "c = bslash")
      case False
      with nq "2.prems" "2.IH"(4) show ?thesis
        by (simp add: sanitize_plain_Cons split: if_splits)
    next
      case True
      with "2.prems" obtain e es where cs: "cs = e # es" by (cases cs) auto
      show ?thesis
      proof (cases "e = CHR ''u''")
        case u: True
        with True cs "2.prems" obtain h1 h2 h3 h4 r n where
          es: "es = h1 # h2 # h3 # h4 # r" and hx: "hex4 h1 h2 h3 h4 = Some n"
          and rec: "lex_string lenient r (n # acc) = Some (s, rest)"
          by (auto split: list.splits option.splits)
        from hex4_not_bslash [OF hx]
        have san: "sanitizeJsonBackslashes (h1 # h2 # h3 # h4 # r) =
                   h1 # h2 # h3 # h4 # sanitizeJsonBackslashes r"
          by (simp add: sanitize_plain_Cons)
        from "2.IH"(1) [OF nq True cs u es refl refl refl hx "2.prems"(1) rec]
        have "lex_string False (sanitizeJsonBackslashes r) (n # acc) =
              Some (s, sanitizeJsonBackslashes rest)" .
        with True cs u es hx san show ?thesis
          by (simp add: u_valid)
      next
        case nu: False
        show ?thesis
        proof (cases "simple_escape e")
          case (Some n)
          with True cs nu "2.prems" have rec: "lex_string lenient es (n # acc) = Some (s, rest)"
            by simp
          from "2.IH"(3) [OF nq True cs nu Some "2.prems"(1) rec]
          have "lex_string False (sanitizeJsonBackslashes es) (n # acc) =
                Some (s, sanitizeJsonBackslashes rest)" .
          with True cs nu Some simple_escape_valid [OF Some] show ?thesis by simp
        next
          case None
          with True cs nu "2.prems"
          have rec: "lex_string lenient (e # es) (92 # acc) = Some (s, rest)" by simp
          from "2.IH"(2) [OF nq True cs nu None "2.prems"(1) "2.prems"(1) rec]
          have "lex_string False (sanitizeJsonBackslashes (e # es)) (92 # acc) =
                Some (s, sanitizeJsonBackslashes rest)" .
          with True cs simple_escape_invalid [OF None nu] show ?thesis
            by (simp add: simple_escape_bslash)
        qed
      qed
    qed
  qed
qed

lemma lex_string_strict_lenient:
  "\<not> l \<Longrightarrow> lex_string l cs acc = Some r \<Longrightarrow> lex_string True cs acc = Some r"
proof (induction l cs acc rule: lex_string.induct)
  case (1 lenient acc)
  then show ?case by simp
next
  case (2 lenient c cs acc)
  show ?case
  proof (cases "c = dquote")
    case True
    with "2.prems" show ?thesis by simp
  next
    case nq: False
    show ?thesis
    proof (cases "c = bslash")
      case False
      with nq "2.prems" "2.IH"(4) show ?thesis
        by (simp split: if_splits)
    next
      case True
      with "2.prems" obtain e es where cs: "cs = e # es" by (cases cs) auto
      show ?thesis
      proof (cases "e = CHR ''u''")
        case u: True
        with True cs "2.prems" obtain h1 h2 h3 h4 t n where
          es: "es = h1 # h2 # h3 # h4 # t" and hx: "hex4 h1 h2 h3 h4 = Some n"
          and rec: "lex_string lenient t (n # acc) = Some r"
          by (auto split: list.splits option.splits)
        from "2.IH"(1) [OF nq True cs u es refl refl refl hx "2.prems"(1) rec]
        have "lex_string True t (n # acc) = Some r" .
        with True cs u es hx show ?thesis by simp
      next
        case nu: False
        show ?thesis
        proof (cases "simple_escape e")
          case (Some n)
          with True cs nu "2.prems" have rec: "lex_string lenient es (n # acc) = Some r"
            by simp
          from "2.IH"(3) [OF nq True cs nu Some "2.prems"(1) rec]
          have "lex_string True es (n # acc) = Some r" .
          with True cs nu Some show ?thesis by simp
        next
          case None
          with True cs nu "2.prems" show ?thesis by simp
        qed
      qed
    qed
  qed
qed

lemma push_token_eq_Some:
  "push_token t x = Some ts \<longleftrightarrow> (\<exists>ts'. x = Some ts' \<and> ts = t # ts')"
  by (cases x) auto

lemma number_char_not_bslash: "number_char c \<Longrightarrow> c \<noteq> bslash"
  by (auto simp: number_char_def is_digit_def)

lemma sanitize_takeWhile:
  assumes "\<And>c. P c \<Longrightarrow> c \<noteq> bslash"
  shows "takeWhile P (sanitizeJsonBackslashes cs) = takeWhile P cs"
proof (induction cs rule: sanitizeJsonBackslashes.induct)
  case (3 c "next" rest)
  show ?case
  proof (cases "c = bslash")
    case True
    with assms have "\<not> P c" "\<not> P bslash" by auto
    with True show ?thesis by simp
  next
    case False
    with 3 show ?thesis by (simp add: sanitize_plain_Cons)
  qed
qed simp_all

lemma sanitize_dropWhile:
  assumes "\<And>c. P c \<Longrightarrow> c \<noteq> bslash"
  shows "dropWhile P (sanitizeJsonBackslashes cs) = sanitizeJsonBackslashes (dropWhile P cs)"
proof (induction cs rule: sanitizeJsonBackslashes.induct)
  case (3 c "next" rest)
  show ?case
  proof (cases "c = bslash")
    case True
    with assms have "\<not> P c" "\<not> P bslash" by auto
    with True show ?thesis by simp
  next
    case False
    with 3 show ?thesis by (simp add: sanitize_plain_Cons)
  qed
qed simp_all

lemma sanitize_keyword:
  assumes "startsWith cs p" "bslash \<notin> set p"
  shows "startsWith (sanitizeJsonBackslashes cs) p \<and>
         drop (length p) (sanitizeJsonBackslashes cs) =
           sanitizeJsonBackslashes (drop (length p) cs)"
  using assms
proof (induction cs p rule: startsWith.induct)
  case (3 c cs p ps)
  then have "c \<noteq> bslash" by auto
  with 3 show ?case by (simp add: sanitize_plain_Cons)
qed simp_all

lemma next_token_bslash: "next_token l bslash cs = None"
  by (simp add: next_token_def is_json_ws_def is_digit_def)

lemma next_token_simple:
  assumes "is_json_ws c \<or> c \<in> set ''{}[]:,''"
  shows "\<exists>tok. \<forall>l cs. next_token l c cs = Some (tok, cs)"
proof (cases "is_json_ws c")
  case True
  then show ?thesis by (simp add: next_token_def)
next
  case False
  with assms have "c = CHR ''{'' \<or> c = CHR ''}'' \<or> c = CHR ''['' \<or> c = CHR '']'' \<or>
                   c = CHR '':'' \<or> c = CHR '','' " by simp
  with False show ?thesis
    by (elim disjE) (simp_all add: next_token_def)
qed

lemma next_token_other:
  assumes "\<not> (is_json_ws c \<or> c \<in> set ''{}[]:,'')"
  shows "next_token l c cs =
     (if c = dquote then
        (case lex_string l cs [] of
           None \<Rightarrow> None
         | Some (s, rest) \<Rightarrow> Some (Some (TString s), rest))
      else if c = CHR ''-'' \<or> is_digit c then
        (if valid_number (c # takeWhile number_char cs)
         then Some (Some (TNumber (c # takeWhile number_char cs)), dropWhile number_char cs)
         else None)
      else if c = CHR ''t'' \<and> startsWith cs ''rue'' then Some (Some TTrue, drop 3 cs)
      else if c = CHR ''f'' \<and> startsWith cs ''alse'' then Some (Some TFalse, drop 4 cs)
      else if c = CHR ''n'' \<and> startsWith cs ''ull'' then Some (Some TNull, drop 3 cs)
      else None)"
  using assms by (simp add: next_token_def)

lemma next_token_sanitize:
  assumes "l" "next_token l c cs = Some (tok, rest)"
  shows "next_token False c (sanitizeJsonBackslashes cs) = Some (tok, sanitizeJsonBackslashes rest)"
proof (cases "is_json_ws c \<or> c \<in> set ''{}[]:,''")
  case True
  from next_token_simple [OF this] obtain tok0
    where t: "\<And>l cs. next_token l c cs = Some (tok0, cs)" by blast
  from assms(2) t [of l cs] have "tok = tok0" "rest = cs" by simp_all
  with t [of False "sanitizeJsonBackslashes cs"] show ?thesis by simp
next
  case False
  note nt = next_token_other [OF False]
  note tw = sanitize_takeWhile [of number_char, OF number_char_not_bslash]
  note dw = sanitize_dropWhile [of number_char, OF number_char_not_bslash]
  show ?thesis
  proof (cases "c = dquote")
    case True
    with assms(2) obtain s where s: "lex_string l cs [] = Some (s, rest)" "tok = Some (TString s)"
      unfolding nt by (auto split: option.splits)
    from lex_string_sanitize [OF assms(1) s(1)] True s(2) show ?thesis
      unfolding nt by simp
  next
    case nq: False
    show ?thesis
    proof (cases "c = CHR ''-'' \<or> is_digit c")
      case True
      with nq assms(2) show ?thesis
        unfolding nt by (simp add: tw dw split: if_splits)
    next
      case nn: False
      show ?thesis
      proof (cases "c = CHR ''t'' \<and> startsWith cs ''rue''")
        case True
        with sanitize_keyword [of cs "''rue''"]
        have "startsWith (sanitizeJsonBackslashes cs) ''rue''"
          "drop 3 (sanitizeJsonBackslashes cs) = sanitizeJsonBackslashes (drop 3 cs)"
          by (simp_all add: eval_nat_numeral)
        with True nq nn assms(2) show ?thesis unfolding nt by simp
      next
        case nt1: False
        show ?thesis
        proof (cases "c = CHR ''f'' \<and> startsWith cs ''alse''")
          case True
          with sanitize_keyword [of cs "''alse''"]
          have "startsWith (sanitizeJsonBackslashes cs) ''alse''"
            "drop 4 (sanitizeJsonBackslashes cs) = sanitizeJsonBackslashes (drop 4 cs)"
            by (simp_all add: eval_nat_numeral)
          with True nq nn nt1 assms(2) show ?thesis unfolding nt by simp
        next
          case nf: False
          show ?thesis
          proof (cases "c = CHR ''n'' \<and> startsWith cs ''ull''")
            case True
            with sanitize_keyword [of cs "''ull''"]
            have "startsWith (sanitizeJsonBackslashes cs) ''ull''"
              "drop 3 (sanitizeJsonBackslashes cs) = sanitizeJsonBackslashes (drop 3 cs)"
              by (simp_all add: eval_nat_numeral)
            with True nq nn nt1 nf assms(2) show ?thesis unfolding nt by simp
          next
            case False
            with nq nn nt1 nf have "next_token l c cs = None" unfolding nt by auto
            with assms(2) show ?thesis by simp
          qed
        qed
      qed
    qed
  qed
qed

lemma next_token_strict_lenient:
  assumes "next_token False c cs = Some r"
  shows "next_token True c cs = Some r"
proof (cases "is_json_ws c \<or> c \<in> set ''{}[]:,''")
  case True
  from next_token_simple [OF this] obtain tok0
    where t: "\<And>l cs. next_token l c cs = Some (tok0, cs)" by blast
  from assms t [of False cs] t [of True cs] show ?thesis by simp
next
  case False
  note nt = next_token_other [OF False]
  show ?thesis
  proof (cases "c = dquote")
    case True
    with assms obtain s rest where s: "lex_string False cs [] = Some (s, rest)"
      "r = (Some (TString s), rest)"
      unfolding nt by (auto split: option.splits)
    from lex_string_strict_lenient [OF _ s(1)] have "lex_string True cs [] = Some (s, rest)"
      by simp
    with True s(2) show ?thesis unfolding nt by simp
  next
    case False
    with assms show ?thesis unfolding nt by simp
  qed
qed

lemma lex_sanitize:
  "l \<Longrightarrow> lex l t = Some ts \<Longrightarrow> lex False (sanitizeJsonBackslashes t) = Some ts"
proof (induction l t arbitrary: ts rule: lex.induct)
  case (1 lenient)
  then show ?case by (simp add: lex.simps)
next
  case (2 lenient c cs)
  from "2.prems"(2) obtain tok rest where nt: "next_token lenient c cs = Some (tok, rest)"
    by (auto simp: lex.simps split: option.splits)
  then have nb: "c \<noteq> bslash" using next_token_bslash by fastforce
  then have san: "sanitizeJsonBackslashes (c # cs) = c # sanitizeJsonBackslashes cs"
    by (rule sanitize_plain_Cons)
  from next_token_sanitize [OF "2.prems"(1) nt]
  have nt': "next_token False c (sanitizeJsonBackslashes cs) =
             Some (tok, sanitizeJsonBackslashes rest)" .
  show ?case
  proof (cases tok)
    case None
    with nt "2.prems"(2) have "lex lenient rest = Some ts" by (simp add: lex.simps)
    from "2.IH"(1) [OF nt refl None "2.prems"(1) this] nt' None show ?thesis
      unfolding san by (simp add: lex.simps)
  next
    case (Some t)
    with nt "2.prems"(2) obtain ts' where ts': "lex lenient rest = Some ts'" "ts = t # ts'"
      by (auto simp: lex.simps push_token_eq_Some)
    from "2.IH"(2) [OF nt refl Some "2.prems"(1) ts'(1)] nt' Some ts'(2) show ?thesis
      unfolding san by (simp add: lex.simps)
  qed
qed

lemma lex_strict_lenient:
  "\<not> l \<Longrightarrow> lex l t = Some ts \<Longrightarrow> lex True t = Some ts"
proof (induction l t arbitrary: ts rule: lex.induct)
  case (1 lenient)
  then show ?case by (simp add: lex.simps)
next
  case (2 lenient c cs)
  from "2.prems"(2) obtain tok rest where nt: "next_token lenient c cs = Some (tok, rest)"
    by (auto simp: lex.simps split: option.splits)
  with "2.prems"(1) have nt': "next_token True c cs = Some (tok, rest)"
    using next_token_strict_lenient by simp
  show ?case
  proof (cases tok)
    case None
    with nt "2.prems"(2) have "lex lenient rest = Some ts" by (simp add: lex.simps)
    from "2.IH"(1) [OF nt refl None "2.prems"(1) this] nt' None show ?thesis
      by (simp add: lex.simps)
  next
    case (Some t)
    with nt "2.prems"(2) obtain ts' where ts': "lex lenient rest = Some ts'" "ts = t # ts'"
      by (auto simp: lex.simps push_token_eq_Some)
    from "2.IH"(2) [OF nt refl Some "2.prems"(1) ts'(1)] nt' Some ts'(2) show ?thesis
      by (simp add: lex.simps)
  qed
qed

lemma JSON_parse_mode_Inr:
  "JSON_parse_mode l t = Inr v \<longleftrightarrow>
     (\<exists>ts. lex l t = Some ts \<and> parse_tokens [] WantValue ts = Some v)"
  by (auto simp: JSON_parse_mode_def split: option.splits)

lemma JSON_parse_sanitized:
  assumes "JSON_parse_lenient t = Inr v"
  shows "JSON_parse (sanitizeJsonBackslashes t) = Inr v"
proof -
  from assms obtain ts where ts: "lex True t = Some ts" "parse_tokens [] WantValue ts = Some v"
    unfolding JSON_parse_lenient_def JSON_parse_mode_Inr by blast
  from lex_sanitize [OF _ ts(1)] have "lex False (sanitizeJsonBackslashes t) = Some ts" by simp
  with ts(2) show ?thesis
    unfolding JSON_parse_def JSON_parse_mode_Inr by blast
qed

lemma JSON_parse_strict_lenient:
  assumes "JSON_parse t = Inr v"
  shows "JSON_parse_lenient t = Inr v"
proof -
  from assms obtain ts where ts: "lex False t = Some ts" "parse_tokens [] WantValue ts = Some v"
    unfolding JSON_parse_def JSON_parse_mode_Inr by blast
  from lex_strict_lenient [OF _ ts(1)] have "lex True t = Some ts" by simp
  with ts(2) show ?thesis
    unfolding JSON_parse_lenient_def JSON_parse_mode_Inr by blast
qed

lemma sanitize_invalid_pair:
  "e \<notin> validEscapes \<Longrightarrow>
   sanitizeJsonBackslashes (bslash # e # rest) = bslash # bslash # sanitizeJsonBackslashes (e # rest)"
  by simp

text \<open>A payload with LaTeX in a string: \<open>{"a":"\\sigma"}\<close> with a single backslash.\<close>

definition sigma_payload :: string where
  \<open>sigma_payload = ''{"a":"'' @ [bslash] @ ''sigma"}''\<close>

text \<open>
  Claim C7. Let \<open>t\<close> be a text that is well-formed JSON except that backslashes in its
  strings may be followed by characters outside the escape set, and let \<open>v\<close> be its
  value when each such backslash is read as a literal backslash followed by that
  character (the lenient reading). Then parsing the sanitized text succeeds with
  exactly \<open>v\<close>, and so does the parse chain of \<open>parseJsonResponse\<close> on \<open>t\<close>: the
  field holds the backslash and the letter, and the parse does not fail.
\<close>

theorem sanitize_recovers_invalid_escapes:
  assumes "JSON_parse_lenient t = Inr v"
  shows "JSON_parse (sanitizeJsonBackslashes t) = Inr v \<and> parseJsonPayload t = Inr v"
proof -
  have s: "JSON_parse (sanitizeJsonBackslashes t) = Inr v"
    using assms by (rule JSON_parse_sanitized)
  have "parseJsonPayload t = Inr v"
  proof (cases "JSON_parse t")
    case (Inr v')
    from JSON_parse_strict_lenient [OF this] assms have "v' = v" by simp
    with Inr show ?thesis by (simp add: parseJsonPayload_def)
  next
    case (Inl e)
    with s show ?thesis by (simp add: parseJsonPayload_def)
  qed
  with s show ?thesis by simp
qed

theorem sanitize_recovers_invalid_escapes_witness:
  "JSON_parse sigma_payload = Inl (Error ''SyntaxError'') \<and>
   JSON_parse (sanitizeJsonBackslashes sigma_payload) =
     Inr (JObject [(str ''a'', JString (str (bslash # ''sigma'')))]) \<and>
   parseJsonPayload sigma_payload =
     Inr (JObject [(str ''a'', JString (str (bslash # ''sigma'')))])"
proof -
  have l: "JSON_parse_lenient sigma_payload =
             Inr (JObject [(str ''a'', JString (str (bslash # ''sigma'')))])"
    by code_simp
  have f: "JSON_parse sigma_payload = Inl (Error ''SyntaxError'')"
    by code_simp
  from sanitize_recovers_invalid_escapes [OF l] f show ?thesis by simp
qed

text \<open>The serialized value \<open>{"a":"hello"}\<close> cut off inside the string, after three quotes.\<close>

definition cut_mid_string :: string where
  \<open>cut_mid_string = ''{"a":"hel''\<close>

text \<open>
  Claim C8 fails on the code. The last quote of a text cut inside a string is the
  quote that opens the cut string; step 1 finds it unescaped and keeps everything up to
  and including it, so the text still ends inside a string. The closers are then
  appended inside that string: the result does not parse, and its count of open braces
  outside strings is 1, not 0.
\<close>

theorem repairTruncatedJson_mid_string_unrepaired:
  \<open>JSON_parse (cut_mid_string @ ''lo"}'') = Inr (JObject [(str ''a'', JString (str ''hello''))]) \<and>
   repairTruncatedJson cut_mid_string = ''{"a":"}'' \<and>
   JSON_parse (repairTruncatedJson cut_mid_string) = Inl (Error ''SyntaxError'') \<and>
   count_open (repairTruncatedJson cut_mid_string) =
     \<lparr>openBraces = 1, openBrackets = 0, inString = True, escaped = False\<rparr>\<close>
  by code_simp

text \<open>
  Replies that are valid JSON and hold a fenced block inside a string: the JSON string
  \<open>"```{}```"\<close>, the object \<open>{"a":"```{}```"}\<close>, and a lesson whose markdown body
  quotes a line of code between triple backticks.
\<close>

definition quoted_fence :: string where
  \<open>quoted_fence = ''"```{}```"''\<close>

definition fence_in_field :: string where
  \<open>fence_in_field = ''{"a":"```{}```"}''\<close>

definition markdown_lesson :: string where
  \<open>markdown_lesson = ''{"overview":"Why","instructionalText":"Run ```x = 1``` first."}''\<close>

lemma fence_match_Nil: "fence_match i [] = None"
  by (simp add: fence_match_def indexOf_def)

lemma fenced_value_Nil: "fenced_value [] = None"
  by (simp add: fenced_value_def extractFencedJson_def fence_match_Nil)

lemma JSON_parse_Nil: "JSON_parse [] = Inl (Error ''SyntaxError'')"
  by (simp add: JSON_parse_def JSON_parse_mode_def lex.simps)

text \<open>
  In both parsers the fence is looked for before any parse of the raw text. In
  \<open>parseJsonFromModelText\<close> the value of a fenced block that parses is returned at once,
  and the trimmed text is parsed directly only when there is no such block; in
  \<open>parseJsonResponse\<close> a text that holds a fenced block is replaced by the content of
  the block before the first parse.
\<close>

lemma parseJsonFromModelText_fence_first:
  assumes "extractFencedJson (trim raw) = Some fenced" and "fenced \<noteq> []"
    and "JSON_parse fenced = Inr v"
  shows "parseJsonFromModelText raw = Inr v"
proof -
  from assms have fv: "fenced_value (trim raw) = Some v" by (simp add: fenced_value_def)
  with fenced_value_Nil have "trim raw \<noteq> []" by auto
  with fv show ?thesis by (simp add: parseJsonFromModelText_def)
qed

lemma parseJsonFromModelText_direct:
  assumes "fenced_value (trim raw) = None" and "JSON_parse (trim raw) = Inr v"
  shows "parseJsonFromModelText raw = Inr v"
proof -
  from assms JSON_parse_Nil have "trim raw \<noteq> []" by auto
  with assms show ?thesis by (simp add: parseJsonFromModelText_def)
qed

lemma parseJsonResponse_fenced_only:
  assumes "fence_match False raw = Some captured"
  shows "parseJsonResponse raw = parseJsonPayload (trim captured)"
  using assms by (simp add: parseJsonResponse_def extractJsonPayload_def)

text \<open>
  Claim C3 fails on the code, which loses valid documents. Each of the three replies
  parses directly, so by the claim its value is that of the direct parse and no fence
  is looked for. The code looks for the fence first: \<open>parseJsonFromModelText\<close> returns
  the empty object for the JSON string, \<open>parseJsonResponse\<close> returns the empty object
  for the object with the field \<open>a\<close>, and on the lesson it parses only \<open>x = 1\<close> and
  throws, so that a complete, valid lesson is discarded. The parser of
  extract-subsections.ts, which parses directly first, returns the document.
\<close>

theorem fence_extraction_discards_valid_json:
  \<open>JSON_parse (trim quoted_fence) = Inr (JString (str ''```{}```'')) \<and>
   parseJsonFromModelText quoted_fence = Inr (JObject []) \<and>
   JSON_parse fence_in_field = Inr (JObject [(str ''a'', JString (str ''```{}```''))]) \<and>
   parseJsonResponse fence_in_field = Inr (JObject []) \<and>
   parseJsonResponse_subsections fence_in_field =
     Inr (JObject [(str ''a'', JString (str ''```{}```''))]) \<and>
   JSON_parse markdown_lesson =
     Inr (JObject [(str ''overview'', JString (str ''Why'')),
                   (str ''instructionalText'', JString (str ''Run ```x = 1``` first.''))]) \<and>
   extractJsonPayload markdown_lesson = ''x = 1'' \<and>
   isl (parseJsonResponse markdown_lesson) \<and>
   parseJsonResponse_subsections markdown_lesson = JSON_parse markdown_lesson\<close>
  by code_simp

section \<open>Lesson generation (generate-lessons.ts, generateLesson)\<close>

text \<open>
  The input and output interfaces of generate-lessons.ts. The fields
  \<open>chapterNumber\<close> and \<open>chapterTitle\<close> of \<open>GeneratedLesson\<close> are
  \<open>lessonChapterNumber\<close> and \<open>lessonChapterTitle\<close> here (a field name is one constant);
  the fields of \<open>PracticeQuestion\<close> and \<open>MemorizableDrill\<close> carry the prefixes \<open>q_\<close>
  and \<open>d_\<close>. The content fields of a lesson are filled from the parsed response, which
  is \<open>any\<close> in the source, so they hold JSON values; \<open>assessmentTargets\<close>, which
  \<open>generateLesson\<close> never reads, is left out.

  The course structure is read from course-structure.json with \<open>JSON.parse\<close> and never
  validated. extract-subsections.ts, which writes that file, stores as \<open>memorizeables\<close>
  whatever array the model returned (\<open>Array.isArray\<close> is its only check, line 351), so an
  element of the array is a string or any other JSON value: the type \<open>element\<close>. The
  numbers, the titles and the key concepts are taken to be strings, as the interfaces
  declare them.
\<close>

datatype element =
    is_EString: EString string
  | ENull
  | EBool bool
  | ENumber string
  | EArray "json list"
  | EObject "(nat list \<times> json) list"

record Subsection =
  number :: "string option"
  title :: string
  keyConcepts :: "string list"
  memorizeables :: "element list"

record ChapterBreakdown =
  chapterNumber :: "string option"
  chapterTitle :: string
  summary :: string
  subsections :: "Subsection list"

record PracticeQuestion =
  q_type :: json
  q_question :: json
  q_choices :: "json option"
  q_answer :: json
  q_explanation :: json

record MemorizableDrill =
  d_prompt :: json
  d_answer :: json
  d_category :: json

record GeneratedLesson =
  sectionNumber :: "string option"
  sectionTitle :: string
  lessonChapterNumber :: "string option"
  lessonChapterTitle :: string
  overview :: json
  instructionalText :: json
  workedExamples :: json
  keyTakeaways :: json
  practiceQuestions :: "PracticeQuestion list"
  memorizeableDrills :: "MemorizableDrill list"

text \<open>
  JavaScript on parsed values: \<open>and_then\<close> sequences two steps of which the first may
  throw; \<open>truthy\<close> is the truth value of a JSON value (a number is falsy when
  \<open>JSON.parse\<close> reads it as \<open>0\<close> or \<open>-0\<close>, that is when the exact value of its lexeme
  is at most \<open>1 / 2 ^ 1075\<close> in magnitude, half the least positive double, which
  rounding to nearest with ties to even takes to zero);
  \<open>get_prop\<close> is a property read, which throws a \<open>TypeError\<close> on \<open>null\<close> and gives
  \<open>undefined\<close> (\<open>None\<close>) for a missing member and on primitives and arrays, for the
  property names read here; \<open>or_default v d\<close> is \<open>v || d\<close>; \<open>array_or_empty v\<close> is
  \<open>Array.isArray(v) ? v : []\<close>; \<open>map_or_empty v f\<close> is \<open>(v || []).map(f)\<close>, a
  \<open>TypeError\<close> when the value is truthy and not an array.
\<close>

definition jstr :: "string \<Rightarrow> json" where
  "jstr s = JString (str s)"

definition typeError :: thrown where
  "typeError = Error ''TypeError''"

definition and_then :: "thrown + 'a \<Rightarrow> ('a \<Rightarrow> thrown + 'b) \<Rightarrow> thrown + 'b" where
  "and_then r f = (case r of Inl e \<Rightarrow> Inl e | Inr x \<Rightarrow> f x)"

fun digits_value :: "int \<Rightarrow> string \<Rightarrow> int" where
  "digits_value n [] = n"
| "digits_value n (c # cs) = digits_value (10 * n + (of_char c - 48)) cs"

definition exponent_value :: "string \<Rightarrow> int" where
  "exponent_value ex =
     (case ex of
        [] \<Rightarrow> 0
      | c # r \<Rightarrow>
          if c = CHR ''-'' then - digits_value 0 r
          else if c = CHR ''+'' then digits_value 0 r
          else digits_value 0 ex)"

definition lexeme_magnitude :: "string \<Rightarrow> rat" where
  "lexeme_magnitude x =
     (let body = (case x of c # r \<Rightarrow> if c = CHR ''-'' then r else x | [] \<Rightarrow> x);
          mantissa = takeWhile (\<lambda>c. c \<noteq> CHR ''e'' \<and> c \<noteq> CHR ''E'') body;
          integral = takeWhile is_digit mantissa;
          fraction = drop (length integral + 1) mantissa;
          m = of_int (digits_value 0 (integral @ fraction));
          e = exponent_value (drop (length mantissa + 1) body) - int (length fraction)
      in if 0 \<le> e then m * 10 ^ nat e else m / 10 ^ nat (- e))"

definition rounds_to_zero :: "string \<Rightarrow> bool" where
  "rounds_to_zero x \<longleftrightarrow> lexeme_magnitude x \<le> 1 / 2 ^ 1075"

fun truthy :: "json \<Rightarrow> bool" where
  "truthy JNull = False"
| "truthy (JBool b) = b"
| "truthy (JNumber x) = (\<not> rounds_to_zero x)"
| "truthy (JString s) = (s \<noteq> [])"
| "truthy (JArray xs) = True"
| "truthy (JObject kvs) = True"

fun get_prop :: "json \<Rightarrow> string \<Rightarrow> thrown + json option" where
  "get_prop JNull k = Inl typeError"
| "get_prop (JObject kvs) k = Inr (map_of (rev kvs) (str k))"
| "get_prop v k = Inr None"

definition or_default :: "json option \<Rightarrow> json \<Rightarrow> json" where
  "or_default v d = (case v of None \<Rightarrow> d | Some x \<Rightarrow> if truthy x then x else d)"

definition array_or_empty :: "json option \<Rightarrow> json" where
  "array_or_empty v = (case v of Some (JArray xs) \<Rightarrow> JArray xs | _ \<Rightarrow> JArray [])"

fun traverse :: "('a \<Rightarrow> thrown + 'b) \<Rightarrow> 'a list \<Rightarrow> thrown + 'b list" where
  "traverse f [] = Inr []"
| "traverse f (x # xs) =
     (case f x of
        Inl e \<Rightarrow> Inl e
      | Inr y \<Rightarrow> (case traverse f xs of Inl e \<Rightarrow> Inl e | Inr ys \<Rightarrow> Inr (y # ys)))"

definition map_or_empty :: "json option \<Rightarrow> (json \<Rightarrow> thrown + 'b) \<Rightarrow> thrown + 'b list" where
  "map_or_empty v f =
     (case or_default v (JArray []) of
        JArray xs \<Rightarrow> traverse f xs
      | _ \<Rightarrow> Inl typeError)"

text \<open>The object literal of the \<open>try\<close> block, lines 288 to 313.\<close>

definition question_from :: "json \<Rightarrow> thrown + PracticeQuestion" where
  "question_from q =
     and_then (get_prop q ''type'') (\<lambda>t.
     and_then (get_prop q ''question'') (\<lambda>qu.
     and_then (get_prop q ''choices'') (\<lambda>ch.
     and_then (get_prop q ''answer'') (\<lambda>an.
     and_then (get_prop q ''explanation'') (\<lambda>ex.
       Inr \<lparr>q_type = or_default t (jstr ''short_answer''),
            q_question = or_default qu (jstr ''''),
            q_choices = (case ch of Some (JArray xs) \<Rightarrow> Some (JArray xs) | _ \<Rightarrow> None),
            q_answer = or_default an (jstr ''''),
            q_explanation = or_default ex (jstr '''')\<rparr>)))))"

definition drill_from :: "json \<Rightarrow> thrown + MemorizableDrill" where
  "drill_from d =
     and_then (get_prop d ''prompt'') (\<lambda>p.
     and_then (get_prop d ''answer'') (\<lambda>an.
     and_then (get_prop d ''category'') (\<lambda>ca.
       Inr \<lparr>d_prompt = or_default p (jstr ''''),
            d_answer = or_default an (jstr ''''),
            d_category = or_default ca (jstr ''fact'')\<rparr>)))"

definition lesson_from_parsed ::
  "ChapterBreakdown \<Rightarrow> Subsection \<Rightarrow> json \<Rightarrow> thrown + GeneratedLesson" where
  "lesson_from_parsed chapter sub parsed =
     and_then (get_prop parsed ''overview'') (\<lambda>ov.
     and_then (get_prop parsed ''instructionalText'') (\<lambda>it.
     and_then (get_prop parsed ''workedExamples'') (\<lambda>we.
     and_then (get_prop parsed ''keyTakeaways'') (\<lambda>kt.
     and_then (get_prop parsed ''practiceQuestions'') (\<lambda>pq.
     and_then (map_or_empty pq question_from) (\<lambda>qs.
     and_then (get_prop parsed ''memorizeableDrills'') (\<lambda>md.
     and_then (map_or_empty md drill_from) (\<lambda>ds.
       Inr \<lparr>sectionNumber = number sub,
            sectionTitle = title sub,
            lessonChapterNumber = chapterNumber chapter,
            lessonChapterTitle = chapterTitle chapter,
            overview = or_default ov (jstr ''''),
            instructionalText = or_default it (jstr ''''),
            workedExamples = array_or_empty we,
            keyTakeaways = array_or_empty kt,
            practiceQuestions = qs,
            memorizeableDrills = ds\<rparr>))))))))"

text \<open>
  The \<open>catch\<close> block, lines 320 to 342: the fallback lesson, computed from the chapter
  and the subsection alone. \<open>split_colon_space []\<close> is \<open>m.split(": ")\<close>, which always
  has a first element, and \<open>join\<close> is \<open>Array.prototype.join\<close>. The call \<open>m.split\<close>
  is a \<open>TypeError\<close> on every element that is not a string (\<open>null\<close> has no properties,
  and numbers, booleans, arrays and parsed objects have no method \<open>split\<close>), and nothing
  in the \<open>catch\<close> block catches it.
\<close>

fun split_colon_space :: "string \<Rightarrow> string \<Rightarrow> string list" where
  "split_colon_space cur [] = [rev cur]"
| "split_colon_space cur [c] = [rev (c # cur)]"
| "split_colon_space cur (c # d # cs) =
     (if c = CHR '':'' \<and> d = CHR '' '' then rev cur # split_colon_space [] cs
      else split_colon_space (c # cur) (d # cs))"

lemma split_colon_space_nonempty: "split_colon_space cur m \<noteq> []"
  by (induction cur m rule: split_colon_space.induct) simp_all

fun join :: "string \<Rightarrow> string list \<Rightarrow> string" where
  "join sep [] = []"
| "join sep [x] = x"
| "join sep (x # y # ys) = x @ sep @ join sep (y # ys)"

fun fallbackDrill :: "element \<Rightarrow> thrown + MemorizableDrill" where
  "fallbackDrill (EString m) =
     (let parts = split_colon_space [] m;
          catPart = hd parts;
          rest = tl parts;
          cat = toLowerCase catPart
      in Inr \<lparr>d_prompt = jstr (''What is the '' @ cat @ '': '' @ take 50 (join '': '' rest) @ ''...?''),
              d_answer = jstr (join '': '' rest),
              d_category =
                jstr (if cat \<in> set [''formula'', ''definition'', ''fact''] then cat else ''fact'')\<rparr>)"
| "fallbackDrill m = Inl typeError"

definition fallbackLesson :: "ChapterBreakdown \<Rightarrow> Subsection \<Rightarrow> thrown + GeneratedLesson" where
  "fallbackLesson chapter sub =
     and_then (traverse fallbackDrill (memorizeables sub)) (\<lambda>drills.
       Inr \<lparr>sectionNumber = number sub,
            sectionTitle = title sub,
            lessonChapterNumber = chapterNumber chapter,
            lessonChapterTitle = chapterTitle chapter,
            overview = jstr (''Section on '' @ title sub @ ''.''),
            instructionalText =
              jstr (''This section covers: '' @ join ''; '' (keyConcepts sub) @ ''.''),
            workedExamples = JArray [],
            keyTakeaways = JArray (map jstr (take 3 (keyConcepts sub))),
            practiceQuestions = [],
            memorizeableDrills = drills\<rparr>)"

text \<open>
  \<open>buildLessonPrompt\<close> puts every memorizeable into a template literal. The
  conversion of a parsed JSON value to a string throws a \<open>TypeError\<close> in one case only:
  an object with a member named \<open>toString\<close> (its value is not callable, and the inherited
  \<open>valueOf\<close> returns the object), alone or inside arrays. The oracle below does not
  depend on the text of the prompt, so of \<open>buildLessonPrompt\<close> only this is kept:
  whether it throws.
\<close>

fun toString_throws :: "json \<Rightarrow> bool" where
  "toString_throws (JObject kvs) = list_ex (\<lambda>kv. fst kv = str ''toString'') kvs"
| "toString_throws (JArray xs) = list_ex toString_throws xs"
| "toString_throws v = False"

fun template_throws :: "element \<Rightarrow> bool" where
  "template_throws (EObject kvs) = list_ex (\<lambda>kv. fst kv = str ''toString'') kvs"
| "template_throws (EArray xs) = list_ex toString_throws xs"
| "template_throws m = False"

definition buildLessonPrompt :: "ChapterBreakdown \<Rightarrow> Subsection \<Rightarrow> thrown + unit" where
  "buildLessonPrompt chapter sub =
     (if list_ex template_throws (memorizeables sub) then Inl typeError else Inr ())"

text \<open>
  \<open>generateLesson\<close>. The completion service is the oracle \<open>generateText\<close> (the text of
  its reply number \<open>i\<close>, or what it throws); \<open>MAX_RETRIES\<close> is the parameter
  \<open>maxRetries\<close>. Everything from \<open>buildLessonPrompt\<close> to the object literal stands in
  the \<open>try\<close> block; the \<open>catch\<close> block builds the fallback lesson, and what that
  throws leaves \<open>generateLesson\<close>. The label, the timing and the console output are
  left out. The result is \<open>None\<close> when \<open>withRetry\<close> does not return.
\<close>

definition generateLesson ::
  "jsnum \<Rightarrow> (nat \<Rightarrow> rat) \<Rightarrow> (nat \<Rightarrow> thrown + string) \<Rightarrow> ChapterBreakdown \<Rightarrow> Subsection \<Rightarrow>
   (thrown + GeneratedLesson) option" where
  "generateLesson maxRetries jitter generateText chapter sub =
     (case buildLessonPrompt chapter sub of
        Inl err \<Rightarrow> Some (fallbackLesson chapter sub)
      | Inr userPrompt \<Rightarrow>
          (case withRetry generateText maxRetries 5000 jitter of
             None \<Rightarrow> None
           | Some run \<Rightarrow>
               Some (case and_then (outcome run) (\<lambda>text.
                          and_then (parseJsonResponse (trim text)) (\<lambda>parsed.
                            lesson_from_parsed chapter sub parsed)) of
                       Inr lesson \<Rightarrow> Inr lesson
                     | Inl err \<Rightarrow> fallbackLesson chapter sub)))"

text \<open>
  An example chapter with two subsections. The memorizeables of the first are strings;
  the second holds one as an object, \<open>{"formula": "epsilon = delta / L"}\<close>, as the
  model returned it.
\<close>

definition demo_sub :: Subsection where
  "demo_sub = \<lparr>number = Some ''3.1'', title = ''Stress'', keyConcepts = [''normal stress'', ''shear stress''],
      memorizeables = [EString ''Formula: sigma = F/A'',
        EString ''Definition: stress: force per area'', EString ''odd'']\<rparr>"

definition untyped_sub :: Subsection where
  "untyped_sub = \<lparr>number = Some ''3.2'', title = ''Strain'', keyConcepts = [''normal strain''],
      memorizeables = [EObject [(str ''formula'', jstr ''epsilon = delta / L'')]]\<rparr>"

definition demo_chapter :: ChapterBreakdown where
  "demo_chapter = \<lparr>chapterNumber = Some ''3'', chapterTitle = ''Load and Stress'', summary = ''s'',
     subsections = [demo_sub, untyped_sub]\<rparr>"

section \<open>Agent runtime (agents/runtime/agentRuntime.ts, AgentRuntime.runJson)\<close>

text \<open>
  Of the request and the configuration, the fields that decide the control flow:
  \<open>parse\<close> (which may throw), \<open>fallback\<close> (what the call \<open>request.fallback()\<close>
  returns or throws) and the retry counts (\<open>configRetryCount\<close> is the configuration's
  \<open>retryCount\<close>). Of the result, the data, the raw text and the trace's attempt count,
  fallback flag and error message; the timestamps and token counters are left out.
\<close>

datatype AgentMode = Live | Mock

record 'a JsonAgentRequest =
  parse :: "json \<Rightarrow> thrown + 'a"
  fallback :: "thrown + 'a"
  retryCount :: "jsnum option"

record RuntimeConfig =
  mode :: AgentMode
  configRetryCount :: jsnum

record 'a AgentRunResult =
  data :: 'a
  attemptCount :: jsnum
  fallbackUsed :: bool
  errorMessage :: "string option"
  rawText :: string

fun js_succ :: "jsnum \<Rightarrow> jsnum" where
  "js_succ (Fin a) = Fin (a + 1)"
| "js_succ x = x"

fun js_max :: "jsnum \<Rightarrow> jsnum \<Rightarrow> jsnum" where
  "js_max NaN b = NaN"
| "js_max a NaN = NaN"
| "js_max a b = (if js_lt a b then b else a)"

definition formatError :: "thrown \<Rightarrow> string" where
  "formatError v = (case v of Error m \<Rightarrow> m | _ \<Rightarrow> ''Unknown runtime error.'')"

text \<open>
  \<open>fallbackResult\<close> is the code after the loop (and the mock branch): the call of
  \<open>request.fallback()\<close> stands outside every \<open>try\<close>, so what it throws propagates.
  \<open>attemptOnce\<close> is the body of the \<open>try\<close> block of one attempt. The loop runs while
  \<open>attempt <= maxAttempts\<close>; the \<open>delay\<close> between attempts is left out.
\<close>

definition fallbackResult :: "'a JsonAgentRequest \<Rightarrow> jsnum \<Rightarrow> string option \<Rightarrow> thrown + 'a AgentRunResult" where
  "fallbackResult request attempts err =
     (case fallback request of
        Inl e \<Rightarrow> Inl e
      | Inr d \<Rightarrow>
          Inr \<lparr>data = d, attemptCount = attempts, fallbackUsed = True,
               errorMessage = err, rawText = []\<rparr>)"

definition attemptOnce ::
  "'a JsonAgentRequest \<Rightarrow> (nat \<Rightarrow> thrown + string) \<Rightarrow> nat \<Rightarrow> thrown + 'a AgentRunResult" where
  "attemptOnce request generateText attempt =
     and_then (generateText attempt) (\<lambda>text.
     and_then (parseJsonFromModelText (trim text)) (\<lambda>v.
     and_then (parse request v) (\<lambda>parsed.
       Inr \<lparr>data = parsed, attemptCount = num attempt, fallbackUsed = False,
            errorMessage = None, rawText = trim text\<rparr>)))"

partial_function (option) runJson_attempts ::
  "'a JsonAgentRequest \<Rightarrow> (nat \<Rightarrow> thrown + string) \<Rightarrow> jsnum \<Rightarrow> nat \<Rightarrow> thrown \<Rightarrow>
   (thrown + 'a AgentRunResult) option" where
  "runJson_attempts request generateText maxAttempts attempt lastError =
     (if js_le (num attempt) maxAttempts then
        (case attemptOnce request generateText attempt of
           Inr result \<Rightarrow> Some (Inr result)
         | Inl error \<Rightarrow> runJson_attempts request generateText maxAttempts (attempt + 1) error)
      else Some (fallbackResult request maxAttempts (Some (formatError lastError))))"

declare runJson_attempts.simps [code]

definition maxAttempts :: "RuntimeConfig \<Rightarrow> 'a JsonAgentRequest \<Rightarrow> jsnum" where
  "maxAttempts config request =
     js_max (Fin 1)
       (js_succ (case retryCount request of Some r \<Rightarrow> r | None \<Rightarrow> configRetryCount config))"

definition runJson ::
  "RuntimeConfig \<Rightarrow> 'a JsonAgentRequest \<Rightarrow> (nat \<Rightarrow> thrown + string) \<Rightarrow>
   (thrown + 'a AgentRunResult) option" where
  "runJson config request generateText =
     (if mode config = Mock then Some (fallbackResult request (Fin 1) None)
      else runJson_attempts request generateText (maxAttempts config request) 1 Undefined)"

text \<open>Both retry loops return whenever their bound is not infinite.\<close>

lemma js_le_num_bound:
  assumes "R \<noteq> PosInf"
  shows "\<exists>n. \<forall>k\<ge>n. \<not> js_le (num k) R"
proof (cases R)
  case (Fin a)
  have "\<not> js_le (num k) R" if "nat \<lceil>a\<rceil> + 1 \<le> k" for k
  proof -
    from that have "\<lceil>a\<rceil> < int k" by linarith
    then have "a < of_int (int k)" by (simp add: ceiling_less_iff)
    then show ?thesis using Fin by simp
  qed
  then show ?thesis by blast
qed (use assms in simp_all)

lemma withRetry_loop_returns:
  assumes "\<forall>k\<ge>n. \<not> js_le (num k) R"
  shows "\<exists>r. withRetry_loop fn R baseMs jitter a lastErr evs = Some r"
proof (induction "n - a" arbitrary: a lastErr evs)
  case 0
  then have "\<not> js_le (num a) R" using assms by simp
  then show ?case by (subst withRetry_loop.simps) simp
next
  case (Suc d)
  then have "d = n - (a + 1)" by simp
  from Suc.hyps(1) [OF this] show ?case
    by (subst withRetry_loop.simps) (auto split: sum.splits)
qed

lemma withRetry_returns:
  assumes "R \<noteq> PosInf"
  shows "\<exists>r. withRetry fn R baseMs jitter = Some r"
  using js_le_num_bound [OF assms] withRetry_loop_returns unfolding withRetry_def by blast

lemma runJson_attempts_returns:
  assumes "\<forall>k\<ge>n. \<not> js_le (num k) R"
  shows "\<exists>r. runJson_attempts request generateText R a lastError = Some r"
proof (induction "n - a" arbitrary: a lastError)
  case 0
  then have "\<not> js_le (num a) R" using assms by simp
  then show ?case by (subst runJson_attempts.simps) simp
next
  case (Suc d)
  then have "d = n - (a + 1)" by simp
  from Suc.hyps(1) [OF this] show ?case
    by (subst runJson_attempts.simps) (auto split: sum.splits)
qed

lemma runJson_attempts_result:
  assumes "runJson_attempts request generateText R a lastError = Some r"
  shows "(\<exists>k res. attemptOnce request generateText k = Inr res \<and> r = Inr res) \<or>
         (\<exists>err. r = fallbackResult request R (Some err))"
proof (rule runJson_attempts.raw_induct
    [where P = "\<lambda>req gen R a l r.
        (\<exists>k res. attemptOnce req gen k = Inr res \<and> r = Inr res) \<or>
        (\<exists>err. r = fallbackResult req R (Some err))", OF _ assms])
  fix f and req :: "'a JsonAgentRequest" and gen maxAttempts attempt lastError r
  assume IH: "\<And>req gen maxAttempts attempt lastError r.
      f req gen maxAttempts attempt lastError = Some r \<Longrightarrow>
      (\<exists>k res. attemptOnce req gen k = Inr res \<and> r = Inr res) \<or>
      (\<exists>err. r = fallbackResult req maxAttempts (Some err))"
    and body: "(if js_le (num attempt) maxAttempts
         then case attemptOnce req gen attempt of
                Inl error \<Rightarrow> f req gen maxAttempts (attempt + 1) error
              | Inr result \<Rightarrow> Some (Inr result)
         else Some (fallbackResult req maxAttempts (Some (formatError lastError)))) = Some r"
  show "(\<exists>k res. attemptOnce req gen k = Inr res \<and> r = Inr res) \<or>
        (\<exists>err. r = fallbackResult req maxAttempts (Some err))"
  proof (cases "js_le (num attempt) maxAttempts")
    case False
    with body show ?thesis by auto
  next
    case True
    show ?thesis
    proof (cases "attemptOnce req gen attempt")
      case (Inr res)
      with True body show ?thesis by auto
    next
      case (Inl err)
      with True body have "f req gen maxAttempts (attempt + 1) err = Some r" by simp
      then show ?thesis by (rule IH)
    qed
  qed
qed

lemma fallbackResult_value:
  assumes "fallback request = Inr d"
  shows "\<exists>res. fallbackResult request n err = Inr res \<and> fallbackUsed res \<and> data res = d"
  using assms by (simp add: fallbackResult_def)

lemma attemptOnce_value:
  assumes "attemptOnce request generateText k = Inr res"
  shows "\<not> fallbackUsed res \<and> (\<exists>v. parse request v = Inr (data res))"
  using assms unfolding attemptOnce_def and_then_def
  by (auto split: sum.splits)

lemma generateLesson_cases:
  assumes "generateLesson maxRetries jitter generateText chapter sub = Some r"
  shows "r = fallbackLesson chapter sub \<or>
         (\<exists>text parsed lesson. parseJsonResponse (trim text) = Inr parsed \<and>
            lesson_from_parsed chapter sub parsed = Inr lesson \<and> r = Inr lesson)"
  using assms unfolding generateLesson_def and_then_def
  by (auto split: option.splits sum.splits)

lemma buildLessonPrompt_typed:
  assumes "list_all is_EString (memorizeables sub)"
  shows "buildLessonPrompt chapter sub = Inr ()"
proof -
  have "\<not> template_throws m" if "is_EString m" for m
    using that by (cases m) simp_all
  with assms have "\<not> list_ex template_throws (memorizeables sub)"
    by (auto simp: list_all_iff list_ex_iff)
  then show ?thesis by (simp add: buildLessonPrompt_def)
qed

lemma traverse_fallbackDrill:
  "list_all is_EString ms \<Longrightarrow> \<exists>ds. traverse fallbackDrill ms = Inr ds"
proof (induction ms)
  case Nil
  then show ?case by simp
next
  case (Cons m ms)
  then obtain x ds where "m = EString x" "traverse fallbackDrill ms = Inr ds"
    by (cases m) auto
  then show ?case by (simp add: Let_def)
qed

lemma fallbackLesson_typed:
  assumes "list_all is_EString (memorizeables sub)"
  shows "\<exists>l. fallbackLesson chapter sub = Inr l"
  using traverse_fallbackDrill [OF assms] by (auto simp: fallbackLesson_def and_then_def)

text \<open>
  Where the course structure has the declared types, the handlers keep the contract.
  For a subsection whose memorizeables are all strings, \<open>generateLesson\<close> throws
  nothing, and with a retry bound that is not infinite it returns the lesson built from
  a parsed reply or the fallback lesson. \<open>AgentRuntime.runJson\<close> calls
  \<open>request.fallback()\<close> outside every \<open>try\<close>; given a fallback generator that returns a
  value \<open>d\<close> it throws nothing, and in mock mode or with a finite attempt bound it
  returns either a parsed value with \<open>fallbackUsed = false\<close> or \<open>d\<close> with
  \<open>fallbackUsed = true\<close>.
\<close>

lemma generateLesson_typed:
  assumes typed: "list_all is_EString (memorizeables sub)"
  shows "(\<forall>e. generateLesson maxRetries jitter generateText chapter sub \<noteq> Some (Inl e)) \<and>
   (maxRetries \<noteq> PosInf \<longrightarrow>
      (\<exists>lesson. generateLesson maxRetries jitter generateText chapter sub = Some (Inr lesson) \<and>
         (fallbackLesson chapter sub = Inr lesson \<or>
          (\<exists>text parsed. parseJsonResponse (trim text) = Inr parsed \<and>
             lesson_from_parsed chapter sub parsed = Inr lesson))))"
proof (intro conjI impI allI)
  fix e
  from fallbackLesson_typed [OF typed] obtain l where "fallbackLesson chapter sub = Inr l"
    by blast
  then show "generateLesson maxRetries jitter generateText chapter sub \<noteq> Some (Inl e)"
    using generateLesson_cases [of maxRetries jitter generateText "chapter" sub "Inl e"] by auto
next
  assume "maxRetries \<noteq> PosInf"
  from withRetry_returns [OF this] obtain run
    where "withRetry generateText maxRetries 5000 jitter = Some run" by blast
  then obtain r where r: "generateLesson maxRetries jitter generateText chapter sub = Some r"
    by (simp add: generateLesson_def buildLessonPrompt_typed [OF typed])
  from fallbackLesson_typed [OF typed] obtain l where "fallbackLesson chapter sub = Inr l"
    by blast
  with generateLesson_cases [OF r] r
  show "\<exists>lesson. generateLesson maxRetries jitter generateText chapter sub = Some (Inr lesson) \<and>
         (fallbackLesson chapter sub = Inr lesson \<or>
          (\<exists>text parsed. parseJsonResponse (trim text) = Inr parsed \<and>
             lesson_from_parsed chapter sub parsed = Inr lesson))"
    by auto
qed

lemma runJson_fallback_value:
  assumes fb: "fallback request = Inr d"
  shows "(\<forall>e. runJson config request service \<noteq> Some (Inl e)) \<and>
      (mode config = Mock \<or> maxAttempts config request \<noteq> PosInf \<longrightarrow>
         (\<exists>res. runJson config request service = Some (Inr res) \<and>
            (fallbackUsed res \<and> data res = d \<or>
             \<not> fallbackUsed res \<and> (\<exists>v. parse request v = Inr (data res)))))"
proof (intro conjI impI allI)
  fix e
  show "runJson config request service \<noteq> Some (Inl e)"
  proof
    assume a: "runJson config request service = Some (Inl e)"
    show False
    proof (cases "mode config = Mock")
      case True
      with a fallbackResult_value [OF fb, of "Fin 1" None] show False
        by (auto simp: runJson_def)
    next
      case False
      with a have "runJson_attempts request service (maxAttempts config request) 1 Undefined =
                   Some (Inl e)"
        by (simp add: runJson_def)
      from runJson_attempts_result [OF this] fallbackResult_value [OF fb]
      show False by (metis Inl_Inr_False)
    qed
  qed
next
  assume fin: "mode config = Mock \<or> maxAttempts config request \<noteq> PosInf"
  show "\<exists>res. runJson config request service = Some (Inr res) \<and>
            (fallbackUsed res \<and> data res = d \<or>
             \<not> fallbackUsed res \<and> (\<exists>v. parse request v = Inr (data res)))"
  proof (cases "mode config = Mock")
    case True
    with fallbackResult_value [OF fb, of "Fin 1" None] show ?thesis
      by (auto simp: runJson_def)
  next
    case False
    with fin have "maxAttempts config request \<noteq> PosInf" by simp
    from js_le_num_bound [OF this] runJson_attempts_returns
    obtain r where r: "runJson_attempts request service (maxAttempts config request) 1 Undefined =
                       Some r" by blast
    from runJson_attempts_result [OF r]
    consider (ok) k res where "attemptOnce request service k = Inr res" "r = Inr res"
      | (fb) err where "r = fallbackResult request (maxAttempts config request) (Some err)"
      by blast
    then show ?thesis
    proof cases
      case ok
      with attemptOnce_value [OF ok(1)] r False show ?thesis
        by (auto simp: runJson_def)
    next
      case fb
      with fallbackResult_value [OF \<open>fallback request = Inr d\<close>,
          of "maxAttempts config request" "Some err"] r False
      show ?thesis by (auto simp: runJson_def)
    qed
  qed
qed

text \<open>Example services: one whose replies are never JSON, one whose reply is a lesson.\<close>

definition garbled :: "nat \<Rightarrow> thrown + string" where
  "garbled i = Inr ''not json at all''"

definition lesson_reply :: "nat \<Rightarrow> thrown + string" where
  \<open>lesson_reply i = Inr ''{"overview":"Why strain matters."}''\<close>

text \<open>
  Claim C2 fails on the code. The \<open>catch\<close> block of \<open>generateLesson\<close> builds the
  fallback lesson with \<open>m.split(": ")\<close> on every memorizeable, outside any handler, so
  for a subsection that holds a memorizeable that is not a string the unit handler
  throws a \<open>TypeError\<close> to its caller exactly when the unit fails: after a
  non-transient error of the service, after the retries for a rate limit are exhausted,
  and after a reply that does not parse. No fallback value is returned. When the reply
  parses, the same unit succeeds.
\<close>

theorem generateLesson_fallback_throws:
  "generateLesson (Fin 6) no_jitter always_boom demo_chapter untyped_sub = Some (Inl typeError) \<and>
   generateLesson (Fin 1) no_jitter fails_twice demo_chapter untyped_sub = Some (Inl typeError) \<and>
   generateLesson (Fin 6) no_jitter garbled demo_chapter untyped_sub = Some (Inl typeError) \<and>
   generateLesson (Fin 6) no_jitter lesson_reply demo_chapter untyped_sub =
     Some (lesson_from_parsed demo_chapter untyped_sub
             (JObject [(str ''overview'', jstr ''Why strain matters.'')])) \<and>
   isl (fallbackLesson demo_chapter untyped_sub) \<and>
   \<not> isl (lesson_from_parsed demo_chapter untyped_sub
             (JObject [(str ''overview'', jstr ''Why strain matters.'')]))"
  by code_simp

section \<open>Resume: retry classification and merge (generate-lessons.ts, main)\<close>

text \<open>
  A chapter of lessons.json (\<open>generatedAt\<close> and \<open>model\<close> left out), the identity keys
  \<open>sub.number || sub.title\<close> and \<open>l.sectionNumber || l.sectionTitle\<close>, and
  \<open>isFallbackLesson\<close>, which throws a \<open>TypeError\<close> when \<open>instructionalText\<close> is not a
  string.
\<close>

record ChapterLessons =
  cl_chapterNumber :: "string option"
  cl_chapterTitle :: string
  cl_summary :: string
  lessons :: "GeneratedLesson list"

definition subsection_key :: "Subsection \<Rightarrow> string" where
  "subsection_key sub =
     (case number sub of Some n \<Rightarrow> if n \<noteq> [] then n else title sub | None \<Rightarrow> title sub)"

definition lesson_key :: "GeneratedLesson \<Rightarrow> string" where
  "lesson_key l =
     (case sectionNumber l of
        Some n \<Rightarrow> if n \<noteq> [] then n else sectionTitle l
      | None \<Rightarrow> sectionTitle l)"

definition isFallbackLesson :: "GeneratedLesson \<Rightarrow> thrown + bool" where
  "isFallbackLesson lesson =
     (case instructionalText lesson of
        JString s \<Rightarrow> Inr (startsWith s (str ''This section covers:''))
      | _ \<Rightarrow> Inl typeError)"

text \<open>
  \<open>filter_throwing\<close> is \<open>Array.prototype.filter\<close> with a predicate that may throw;
  \<open>build_retriedMap\<close> is the loop \<open>for (const rl of retriedLessons) retriedMap.set(...)\<close>,
  which throws on a slot that was never written. \<open>saveAllLessons\<close> is the counting loop
  of that function over the lessons of the chapter just stored, which returns the
  chapter's numbers of questions and drills and throws on a slot that was never written
  (\<open>l.practiceQuestions\<close> of \<open>undefined\<close>); the other chapters of \<open>allResults\<close> went
  through it before, and the write of the file is left out.
\<close>

fun filter_throwing :: "('a \<Rightarrow> thrown + bool) \<Rightarrow> 'a list \<Rightarrow> thrown + 'a list" where
  "filter_throwing p [] = Inr []"
| "filter_throwing p (x # xs) =
     (case p x of
        Inl e \<Rightarrow> Inl e
      | Inr b \<Rightarrow>
          (case filter_throwing p xs of
             Inl e \<Rightarrow> Inl e
           | Inr ys \<Rightarrow> Inr (if b then x # ys else ys)))"

fun build_retriedMap ::
  "(string \<rightharpoonup> GeneratedLesson) \<Rightarrow> GeneratedLesson option list \<Rightarrow>
   thrown + (string \<rightharpoonup> GeneratedLesson)" where
  "build_retriedMap m [] = Inr m"
| "build_retriedMap m (None # rest) = Inl typeError"
| "build_retriedMap m (Some rl # rest) = build_retriedMap (m(lesson_key rl \<mapsto> rl)) rest"

fun saveAllLessons :: "nat \<Rightarrow> nat \<Rightarrow> GeneratedLesson option list \<Rightarrow> thrown + nat \<times> nat" where
  "saveAllLessons totalQuestions totalDrills [] = Inr (totalQuestions, totalDrills)"
| "saveAllLessons totalQuestions totalDrills (None # rest) = Inl typeError"
| "saveAllLessons totalQuestions totalDrills (Some l # rest) =
     saveAllLessons (totalQuestions + length (practiceQuestions l))
       (totalDrills + length (memorizeableDrills l)) rest"

text \<open>
  The body of the loop over the chapters in \<open>main\<close>, for one chapter, given the entry
  of \<open>existingLessons\<close> for it: what it did and the lessons it stored and saved.
  \<open>handler\<close> is what \<open>generateLesson\<close> settles to for a subsection and its index;
  \<open>Retried\<close> carries \<open>failedSectionIds\<close>, \<open>subsToRetry\<close> and \<open>mergedLessons\<close>, \<open>Fresh\<close>
  the lessons of a chapter processed for the first time. In both branches
  \<open>saveAllLessons\<close> runs before the step ends, so what it throws ends \<open>main\<close>.
\<close>

datatype chapter_step =
    NoSubsections
  | AllOK
  | Retried "string set" "Subsection list" "GeneratedLesson list"
  | Fresh "GeneratedLesson option list"

definition process_chapter ::
  "jsnum \<Rightarrow> (Subsection \<Rightarrow> nat \<Rightarrow> thrown + GeneratedLesson) \<Rightarrow> nat list \<Rightarrow>
   ChapterBreakdown \<Rightarrow> ChapterLessons option \<Rightarrow> thrown + chapter_step" where
  "process_chapter concurrency handler sched chapter existingChapter =
     (if subsections chapter = [] then Inr NoSubsections
      else
        (case existingChapter of
           Some existing \<Rightarrow>
             and_then (filter_throwing isFallbackLesson (lessons existing)) (\<lambda>failedLessons.
               if failedLessons = [] then Inr AllOK
               else
                 let failedSectionIds = set (map lesson_key failedLessons);
                     subsToRetry =
                       filter (\<lambda>sub. subsection_key sub \<in> failedSectionIds) (subsections chapter)
                 in and_then
                      (settled (mapWithConcurrency_lessons subsToRetry concurrency handler sched))
                      (\<lambda>retriedLessons.
                    and_then (build_retriedMap Map.empty retriedLessons) (\<lambda>retriedMap.
                      let mergedLessons =
                            map (\<lambda>existing.
                                   case retriedMap (lesson_key existing) of
                                     Some rl \<Rightarrow> rl
                                   | None \<Rightarrow> existing)
                                (lessons existing)
                      in and_then (saveAllLessons 0 0 (map Some mergedLessons)) (\<lambda>totals.
                           Inr (Retried failedSectionIds subsToRetry mergedLessons)))))
         | None \<Rightarrow>
             and_then
               (settled (mapWithConcurrency_lessons (subsections chapter) concurrency handler sched))
               (\<lambda>lessons.
                  and_then (saveAllLessons 0 0 lessons) (\<lambda>totals. Inr (Fresh lessons)))))"

lemma saveAllLessons_written:
  "\<exists>totals. saveAllLessons q d (map Some ls) = Inr totals"
  by (induction ls arbitrary: q d) simp_all

lemma filter_throwing_total:
  "(\<forall>x\<in>set xs. p x = Inr (q x)) \<Longrightarrow> filter_throwing p xs = Inr (filter q xs)"
  by (induction xs) simp_all

lemma build_retriedMap_same_key:
  "xs \<noteq> [] \<Longrightarrow> (\<forall>x\<in>set xs. lesson_key x = k) \<Longrightarrow>
   build_retriedMap m (map Some xs) = Inr (m(k \<mapsto> last xs))"
proof (induction xs arbitrary: m)
  case Nil
  then show ?case by simp
next
  case (Cons x xs)
  from Cons.prems have kx: "lesson_key x = k" and rest: "\<forall>x\<in>set xs. lesson_key x = k"
    by simp_all
  have unf: "build_retriedMap m (map Some (x # xs)) =
             build_retriedMap (m(k \<mapsto> x)) (map Some xs)"
    using kx by simp
  show ?case
  proof (cases "xs = []")
    case True
    have "build_retriedMap (m(k \<mapsto> x)) (map Some xs) = Inr (m(k \<mapsto> x))"
      unfolding True by simp
    moreover have "last (x # xs) = x" using True by simp
    ultimately show ?thesis unfolding unf by (simp only:)
  next
    case False
    have "build_retriedMap (m(k \<mapsto> x)) (map Some xs) = Inr ((m(k \<mapsto> x))(k \<mapsto> last xs))"
      using False rest by (rule Cons.IH)
    moreover have "(m(k \<mapsto> x))(k \<mapsto> last xs) = m(k \<mapsto> last xs)"
      by (rule fun_upd_upd)
    moreover have "last (x # xs) = last xs" using False by simp
    ultimately show ?thesis unfolding unf by (simp only:)
  qed
qed

text \<open>
  \<open>stored_fallback\<close> is the fallback lesson of a subsection without memorizeables, as a
  stored lesson; \<open>good_lesson\<close> is a lesson with a body of its own. \<open>regenerate\<close> is a
  handler that succeeds, with a body that names the key concepts of its subsection.
\<close>

definition stored_fallback :: "ChapterBreakdown \<Rightarrow> Subsection \<Rightarrow> GeneratedLesson" where
  "stored_fallback chapter sub =
     \<lparr>sectionNumber = number sub,
      sectionTitle = title sub,
      lessonChapterNumber = chapterNumber chapter,
      lessonChapterTitle = chapterTitle chapter,
      overview = jstr (''Section on '' @ title sub @ ''.''),
      instructionalText = jstr (''This section covers: '' @ join ''; '' (keyConcepts sub) @ ''.''),
      workedExamples = JArray [],
      keyTakeaways = JArray (map jstr (take 3 (keyConcepts sub))),
      practiceQuestions = [],
      memorizeableDrills = []\<rparr>"

definition good_lesson :: "ChapterBreakdown \<Rightarrow> Subsection \<Rightarrow> string \<Rightarrow> GeneratedLesson" where
  "good_lesson chapter sub body =
     (stored_fallback chapter sub)\<lparr>overview := jstr ''Why it matters.'',
        instructionalText := jstr body\<rparr>"

definition regenerate :: "ChapterBreakdown \<Rightarrow> Subsection \<Rightarrow> nat \<Rightarrow> thrown + GeneratedLesson" where
  "regenerate chapter sub idx =
     Inr (good_lesson chapter sub (''Regenerated: '' @ join ''; '' (keyConcepts sub)))"

text \<open>
  An example: a chapter of three numbered subsections, of whose stored lessons the
  second is a fallback.
\<close>

definition sub_of :: "string \<Rightarrow> Subsection" where
  "sub_of n = \<lparr>number = Some n, title = ''Section '' @ n, keyConcepts = [''stress''],
      memorizeables = []\<rparr>"

definition three_chapter :: ChapterBreakdown where
  "three_chapter = \<lparr>chapterNumber = Some ''3'', chapterTitle = ''Load and Stress'', summary = ''s'',
     subsections = [sub_of ''3.1'', sub_of ''3.2'', sub_of ''3.3'']\<rparr>"

definition three_existing :: ChapterLessons where
  "three_existing = \<lparr>cl_chapterNumber = Some ''3'', cl_chapterTitle = ''Load and Stress'',
     cl_summary = ''s'',
     lessons = [good_lesson three_chapter (sub_of ''3.1'') ''Stress is force per area.'',
                stored_fallback three_chapter (sub_of ''3.2''),
                good_lesson three_chapter (sub_of ''3.3'') ''Torsion twists a shaft.'']\<rparr>"

text \<open>
  A second example: a chapter whose first two subsections came without a number and
  without a title. extract-subsections.ts gave both the title \<open>Untitled Section\<close>
  (lines 348 and 349), so the two units share their identity key. Of the three stored
  lessons, the first and the third are good and the second is a fallback.
\<close>

definition untitled :: "string \<Rightarrow> Subsection" where
  "untitled concept = \<lparr>number = None, title = ''Untitled Section'', keyConcepts = [concept],
      memorizeables = []\<rparr>"

definition colliding_chapter :: ChapterBreakdown where
  "colliding_chapter = \<lparr>chapterNumber = Some ''3'', chapterTitle = ''Load and Stress'', summary = ''s'',
     subsections = [untitled ''stress'', untitled ''strain'', sub_of ''3.3'']\<rparr>"

definition colliding_existing :: ChapterLessons where
  "colliding_existing = \<lparr>cl_chapterNumber = Some ''3'', cl_chapterTitle = ''Load and Stress'',
     cl_summary = ''s'',
     lessons = [good_lesson colliding_chapter (untitled ''stress'') ''Stress is force per area.'',
                stored_fallback colliding_chapter (untitled ''strain''),
                good_lesson colliding_chapter (sub_of ''3.3'') ''Torsion twists a shaft.'']\<rparr>"

lemma fallbackLesson_stored:
  "memorizeables sub = [] \<Longrightarrow> fallbackLesson chapter sub = Inr (stored_fallback chapter sub)"
  by (simp add: fallbackLesson_def and_then_def stored_fallback_def)

text \<open>Every lesson \<open>generateLesson\<close> returns carries the key of its subsection.\<close>

lemma lesson_key_eq:
  "sectionNumber l = number sub \<Longrightarrow> sectionTitle l = title sub \<Longrightarrow>
   lesson_key l = subsection_key sub"
  by (auto simp: lesson_key_def subsection_key_def split: option.splits)

lemma lesson_key_fallbackLesson:
  assumes "fallbackLesson chapter sub = Inr l"
  shows "lesson_key l = subsection_key sub"
proof -
  from assms have "sectionNumber l = number sub \<and> sectionTitle l = title sub"
    unfolding fallbackLesson_def and_then_def
    by (auto split: sum.splits)
  then show ?thesis by (intro lesson_key_eq) simp_all
qed

lemma lesson_key_from_parsed:
  assumes "lesson_from_parsed chapter sub parsed = Inr l"
  shows "lesson_key l = subsection_key sub"
proof -
  from assms have "sectionNumber l = number sub \<and> sectionTitle l = title sub"
    unfolding lesson_from_parsed_def and_then_def
    by (auto split: sum.splits)
  then show ?thesis by (intro lesson_key_eq) simp_all
qed

lemma generateLesson_key:
  assumes "generateLesson maxRetries jitter generateText chapter sub = Some (Inr l)"
  shows "lesson_key l = subsection_key sub"
  using generateLesson_cases [OF assms] lesson_key_fallbackLesson lesson_key_from_parsed
  by auto

lemma resume_merge:
  assumes j: "j < length (lessons existing)"
    and fb: "isFallbackLesson ((lessons existing) ! j) = Inr True"
    and others: "\<forall>i<length (lessons existing). i \<noteq> j \<longrightarrow>
        isFallbackLesson ((lessons existing) ! i) = Inr False \<and> lesson_key ((lessons existing) ! i) \<noteq> lesson_key ((lessons existing) ! j)"
    and handler: "\<forall>sub idx. \<exists>l. handler sub idx = Inr l \<and> lesson_key l = subsection_key sub"
    and conc: "isFinite concurrency" "js_le (Fin 1) concurrency"
    and present: "\<exists>sub\<in>set (subsections chapter). subsection_key sub = lesson_key ((lessons existing) ! j)"
  shows "\<exists>subsToRetry merged.
           process_chapter concurrency handler sched chapter (Some existing) =
             Inr (Retried {lesson_key ((lessons existing) ! j)} subsToRetry merged) \<and>
           length merged = length (lessons existing) \<and>
           (\<forall>i<length (lessons existing). i \<noteq> j \<longrightarrow> merged ! i = (lessons existing) ! i) \<and>
           (\<exists>sub idx. sub \<in> set subsToRetry \<and>
              subsection_key sub = lesson_key ((lessons existing) ! j) \<and>
              handler sub idx = Inr (merged ! j))"
proof -
  define k where "k = lesson_key ((lessons existing) ! j)"
  define R where "R = filter (\<lambda>sub. subsection_key sub = k) (subsections chapter)"
  define h where "h = (\<lambda>i. projr (handler (R ! i) i))"
  define new where "new = map h [0..<length R]"
  define merged where
    "merged = map (\<lambda>e. case (Map.empty(k \<mapsto> last new)) (lesson_key e) of
                          Some rl \<Rightarrow> rl | None \<Rightarrow> e) (lessons existing)"
  have subs: "subsections chapter \<noteq> []" using present by auto
  have R: "R \<noteq> []"
    using present unfolding R_def k_def by (auto simp: filter_empty_conv)
  have cls: "isFallbackLesson x = Inr (lesson_key x = k)" if "x \<in> set (lessons existing)" for x
  proof -
    from that obtain i where i: "i < length (lessons existing)" "x = (lessons existing) ! i" by (auto simp: in_set_conv_nth)
    show ?thesis
    proof (cases "i = j")
      case True
      with i fb show ?thesis by (simp add: k_def)
    next
      case False
      with i others show ?thesis by (simp add: k_def)
    qed
  qed
  then have failed: "filter_throwing isFallbackLesson (lessons existing) = Inr (filter (\<lambda>x. lesson_key x = k) (lessons existing))"
    by (intro filter_throwing_total) simp
  have mem: "(lessons existing) ! j \<in> set (lessons existing)" using j by simp
  then have ne: "filter (\<lambda>x. lesson_key x = k) (lessons existing) \<noteq> []"
    by (auto simp: filter_empty_conv k_def)
  have ids: "set (map lesson_key (filter (\<lambda>x. lesson_key x = k) (lessons existing))) = {k}"
    using mem by (auto simp: k_def)
  have hh: "handler (R ! i) i = Inr (h i) \<and> lesson_key (h i) = k" if "i < length R" for i
  proof -
    from handler obtain l where l: "handler (R ! i) i = Inr l" "lesson_key l = subsection_key (R ! i)"
      by blast
    from that have "R ! i \<in> set R" by simp
    then have "subsection_key (R ! i) = k" by (simp add: R_def)
    with l show ?thesis by (simp add: h_def)
  qed
  then have "\<forall>i<length R. handler (R ! i) i = Inr (h i)" by simp
  from runner_positional [where items = R and mapper = handler and h = h, OF conc this]
  have run: "settled (mapWithConcurrency_lessons R concurrency handler sched) =
               Inr (map Some new)"
    by (simp add: new_def)
  have new_ne: "new \<noteq> []" using R by (simp add: new_def)
  have new_key: "\<forall>x\<in>set new. lesson_key x = k"
    using hh by (auto simp: new_def)
  from build_retriedMap_same_key [OF new_ne new_key]
  have rm: "build_retriedMap Map.empty (map Some new) = Inr (Map.empty(k \<mapsto> last new))" .
  have flt: "filter (\<lambda>sub. subsection_key sub \<in> {k}) (subsections chapter) = R"
    by (simp add: R_def)
  from saveAllLessons_written obtain totals
    where "saveAllLessons 0 0 (map Some merged) = Inr totals" by blast
  note sv = this [unfolded merged_def]
  have pc: "process_chapter concurrency handler sched chapter (Some existing) =
              Inr (Retried {k} R merged)"
    by (simp only: process_chapter_def subs ne if_False option.case Let_def and_then_def failed
          sum.case ids flt run rm sv merged_def)
  have len: "length merged = length (lessons existing)" by (simp add: merged_def)
  have frame: "merged ! i = (lessons existing) ! i" if "i < length (lessons existing)" "i \<noteq> j" for i
    using that others by (simp add: merged_def k_def)
  have repl: "merged ! j = last new" using j by (simp add: merged_def k_def)
  have lastn: "last new = h (length R - 1)"
    using R by (simp add: new_def last_map)
  have li: "length R - 1 < length R" using R by simp
  from hh [OF li] have "handler (R ! (length R - 1)) (length R - 1) = Inr (merged ! j)"
    by (simp add: repl lastn)
  moreover have "R ! (length R - 1) \<in> set R" using li by simp
  moreover from this have "subsection_key (R ! (length R - 1)) = k" by (simp add: R_def)
  ultimately have "\<exists>sub idx. sub \<in> set R \<and> subsection_key sub = k \<and>
      handler sub idx = Inr (merged ! j)" by blast
  with pc len frame show ?thesis unfolding k_def by blast
qed

text \<open>The hypotheses of \<open>resume_merge\<close> hold on the first example.\<close>

lemma resume_merge_example:
  "\<exists>subsToRetry merged.
     process_chapter (Fin 1) (regenerate three_chapter) [] three_chapter (Some three_existing) =
       Inr (Retried {''3.2''} subsToRetry merged) \<and>
     length merged = 3 \<and>
     merged ! 0 = good_lesson three_chapter (sub_of ''3.1'') ''Stress is force per area.'' \<and>
     merged ! 2 = good_lesson three_chapter (sub_of ''3.3'') ''Torsion twists a shaft.'' \<and>
     (\<exists>sub idx. sub \<in> set subsToRetry \<and> subsection_key sub = ''3.2'' \<and>
        regenerate three_chapter sub idx = Inr (merged ! 1))"
proof -
  have len: "length (lessons three_existing) = 3" by (simp add: three_existing_def)
  have j: "1 < length (lessons three_existing)" by (simp add: len)
  have fb: "isFallbackLesson (lessons three_existing ! 1) = Inr True" by code_simp
  have o0: "isFallbackLesson (lessons three_existing ! 0) = Inr False \<and>
            lesson_key (lessons three_existing ! 0) \<noteq> lesson_key (lessons three_existing ! 1)"
    by code_simp
  have o2: "isFallbackLesson (lessons three_existing ! 2) = Inr False \<and>
            lesson_key (lessons three_existing ! 2) \<noteq> lesson_key (lessons three_existing ! 1)"
    by code_simp
  have others: "\<forall>i<length (lessons three_existing). i \<noteq> 1 \<longrightarrow>
        isFallbackLesson (lessons three_existing ! i) = Inr False \<and>
        lesson_key (lessons three_existing ! i) \<noteq> lesson_key (lessons three_existing ! 1)"
  proof (intro allI impI)
    fix i assume "i < length (lessons three_existing)" "i \<noteq> 1"
    then have "i = 0 \<or> i = 2" unfolding len by arith
    with o0 o2 show "isFallbackLesson (lessons three_existing ! i) = Inr False \<and>
        lesson_key (lessons three_existing ! i) \<noteq> lesson_key (lessons three_existing ! 1)"
      by auto
  qed
  have handler: "\<forall>sub idx. \<exists>l. regenerate three_chapter sub idx = Inr l \<and>
      lesson_key l = subsection_key sub"
  proof (intro allI)
    fix sub idx
    have "lesson_key (good_lesson three_chapter sub
            (''Regenerated: '' @ join ''; '' (keyConcepts sub))) = subsection_key sub"
      by (rule lesson_key_eq) (simp_all add: good_lesson_def stored_fallback_def)
    then show "\<exists>l. regenerate three_chapter sub idx = Inr l \<and> lesson_key l = subsection_key sub"
      by (simp add: regenerate_def)
  qed
  have c1: "isFinite (Fin 1)" and c2: "js_le (Fin 1) (Fin 1)" by simp_all
  have k: "lesson_key (lessons three_existing ! 1) = ''3.2''" by code_simp
  have present: "\<exists>sub\<in>set (subsections three_chapter).
           subsection_key sub = lesson_key (lessons three_existing ! 1)"
    unfolding k by (simp add: three_chapter_def sub_of_def subsection_key_def)
  have l0: "lessons three_existing ! 0 =
              good_lesson three_chapter (sub_of ''3.1'') ''Stress is force per area.''"
    and l2: "lessons three_existing ! 2 =
              good_lesson three_chapter (sub_of ''3.3'') ''Torsion twists a shaft.''"
    by (simp_all add: three_existing_def)
  from resume_merge [OF j fb others handler c1 c2 present, of "[]"]
  obtain R merged where
    r: "process_chapter (Fin 1) (regenerate three_chapter) [] three_chapter (Some three_existing) =
          Inr (Retried {lesson_key (lessons three_existing ! 1)} R merged)"
    and ml: "length merged = length (lessons three_existing)"
    and fr: "\<forall>i<length (lessons three_existing). i \<noteq> 1 \<longrightarrow> merged ! i = lessons three_existing ! i"
    and nw: "\<exists>sub idx. sub \<in> set R \<and> subsection_key sub = lesson_key (lessons three_existing ! 1) \<and>
              regenerate three_chapter sub idx = Inr (merged ! 1)"
    by blast
  from fr have "merged ! 0 = lessons three_existing ! 0" "merged ! 2 = lessons three_existing ! 2"
    unfolding len by simp_all
  with r ml nw show ?thesis unfolding k len l0 l2 by blast
qed

text \<open>
  Claim C6 fails on the code. In the second example exactly one of the three stored
  lessons is a fallback (it is the lesson \<open>generateLesson\<close> returns for its unit when the
  unit fails), and the set of keys to retry holds one key. But the key is matched
  against the subsections and against the stored lessons by value, and the good first
  lesson has the same key: both units are run again, the map of retried lessons keeps
  the last lesson stored under the key, and the merge puts that lesson in the place of
  the fallback and in the place of the good first lesson. The first non-fallback
  outcome is not the unchanged original: it is overwritten by the new lesson of the
  other unit, and the lesson generated for its own unit is dropped. Only the third
  lesson is kept.
\<close>

theorem resume_key_collision_overwrites:
  "fallbackLesson colliding_chapter (untitled ''strain'') = Inr (lessons colliding_existing ! 1) \<and>
   map isFallbackLesson (lessons colliding_existing) = [Inr False, Inr True, Inr False] \<and>
   map lesson_key (lessons colliding_existing) =
     [''Untitled Section'', ''Untitled Section'', ''3.3''] \<and>
   process_chapter (Fin 1) (regenerate colliding_chapter) [] colliding_chapter
       (Some colliding_existing) =
     Inr (Retried {''Untitled Section''} [untitled ''stress'', untitled ''strain'']
            [good_lesson colliding_chapter (untitled ''strain'') ''Regenerated: strain'',
             good_lesson colliding_chapter (untitled ''strain'') ''Regenerated: strain'',
             lessons colliding_existing ! 2]) \<and>
   regenerate colliding_chapter (untitled ''stress'') 0 =
     Inr (good_lesson colliding_chapter (untitled ''stress'') ''Regenerated: stress'') \<and>
   good_lesson colliding_chapter (untitled ''strain'') ''Regenerated: strain'' \<noteq>
     lessons colliding_existing ! 0"
  by code_simp

end
